theory Spec2Isabelle
  imports Main "HOL-Library.Multiset"
begin

section \<open>Strings of the history store\<close>

text \<open>
  A JavaScript string is a sequence of UTF-16 code units; \<open>length\<close> of the list is
  the \<^verbatim>\<open>.length\<close> the code compares with 80. The helper \<open>str\<close> writes an ASCII
  literal.
\<close>

type_synonym jsstring = "nat list"

definition str :: "string \<Rightarrow> jsstring" where
  "str s = map of_char s"

text \<open>
  The code units that \<^verbatim>\<open>String.prototype.trim\<close> strips and that \<^verbatim>\<open>\s\<close> matches in a
  regular expression: tab, line feed, vertical tab, form feed, carriage return, space,
  U+00A0, U+1680, U+2000 to U+200A, U+2028, U+2029, U+202F, U+205F, U+3000 and U+FEFF.
\<close>

definition is_space :: "nat \<Rightarrow> bool" where
  "is_space c \<longleftrightarrow>
     c = 9 \<or> c = 10 \<or> c = 11 \<or> c = 12 \<or> c = 13 \<or> c = 32 \<or> c = 160 \<or> c = 5760 \<or>
     (8192 \<le> c \<and> c \<le> 8202) \<or> c = 8232 \<or> c = 8233 \<or> c = 8239 \<or> c = 8287 \<or>
     c = 12288 \<or> c = 65279"

definition trim :: "jsstring \<Rightarrow> jsstring" where
  "trim s = rev (dropWhile is_space (rev (dropWhile is_space s)))"

text \<open>The class \<^verbatim>\<open>[A-Za-z]\<close> and \<^verbatim>\<open>toUpperCase\<close> on it.\<close>

definition is_letter :: "nat \<Rightarrow> bool" where
  "is_letter c \<longleftrightarrow> (65 \<le> c \<and> c \<le> 90) \<or> (97 \<le> c \<and> c \<le> 122)"

definition upper_letter :: "nat \<Rightarrow> nat" where
  "upper_letter c = (if 97 \<le> c \<and> c \<le> 122 then c - 32 else c)"

subsection \<open>normalizeCity\<close>

text \<open>
  \<^verbatim>\<open>value.trim().replace(/\s+/g, ' ')\<close>: every maximal run of white space becomes one
  space character.
\<close>

fun collapse :: "jsstring \<Rightarrow> jsstring" where
  "collapse [] = []"
| "collapse [c] = (if is_space c then [32] else [c])"
| "collapse (c # d # cs) =
     (if is_space c then (if is_space d then collapse (d # cs) else 32 # collapse (d # cs))
      else c # collapse (d # cs))"

text \<open>
  \<^verbatim>\<open>v.replace(/,\s*([A-Za-z]{2})$/, (_, cc) => `, ${cc.toUpperCase()}`)\<close>: the leftmost
  comma that is followed by white space and then exactly two letters up to the end of
  the string; the match is replaced by comma, space and the two letters in upper case.
\<close>

definition is_cc :: "jsstring \<Rightarrow> bool" where
  "is_cc r \<longleftrightarrow> length r = 2 \<and> list_all is_letter r"

fun replace_cc :: "jsstring \<Rightarrow> jsstring" where
  "replace_cc [] = []"
| "replace_cc (c # cs) =
     (if c = 44 \<and> is_cc (dropWhile is_space cs)
      then [44, 32] @ map upper_letter (dropWhile is_space cs)
      else c # replace_cc cs)"

definition normalizeCity :: "jsstring \<Rightarrow> jsstring" where
  "normalizeCity v0 = (let v = collapse (trim v0) in replace_cc v)"

section \<open>Data model\<close>

record entry =
  name :: jsstring
  pinned :: bool
  ts :: int

text \<open>
  The value under the key \<^verbatim>\<open>weather:history\<close>, seen through \<^verbatim>\<open>JSON.parse\<close>: nothing
  stored, text that does not parse, a JSON value that is not an array, an array of
  strings (the legacy format), or an array of objects. Of an object the loader reads
  three fields; each is absent or has the type the store writes. Timestamps are
  integers, as \<^verbatim>\<open>Date.now()\<close> returns them. The loader tells the two formats apart by
  the type of the first element; an array that mixes strings with other values, and a
  field of another type than the store writes, are not values of this type.
\<close>

record stored_record =
  sname :: "jsstring option"
  spinned :: "bool option"
  sts :: "int option"

datatype persisted =
    Missing
  | Unparsable
  | NotArray
  | StringArray "jsstring list"
  | RecordArray "stored_record list"

section \<open>Loading and saving\<close>

text \<open>
  One element of the object branch:
  \<^verbatim>\<open>{ name: String(o?.name || '').trim(), pinned: Boolean(o?.pinned),
     ts: Number.isFinite(o?.ts) ? o.ts : Date.now() }\<close>.
\<close>

definition load_record :: "int \<Rightarrow> stored_record \<Rightarrow> entry" where
  "load_record t r =
     \<lparr> name = trim (case sname r of None \<Rightarrow> [] | Some s \<Rightarrow> s),
       pinned = (case spinned r of None \<Rightarrow> False | Some b \<Rightarrow> b),
       ts = (case sts r of Some n \<Rightarrow> n | None \<Rightarrow> t) \<rparr>"

text \<open>
  \<open>clk i\<close> is what \<^verbatim>\<open>Date.now()\<close> returns while element \<open>i\<close> is converted; the legacy
  branch reads the clock once, before the map. A missing item is replaced by the text
  of the empty array, and a failing parse is caught.
\<close>

fun getHistory :: "(nat \<Rightarrow> int) \<Rightarrow> persisted \<Rightarrow> entry list" where
  "getHistory clk Unparsable = []"
| "getHistory clk Missing = []"
| "getHistory clk NotArray = []"
| "getHistory clk (StringArray ns) =
     (if ns \<noteq> []
      then (let now = clk 0
            in map (\<lambda>(i, nm). \<lparr> name = nm, pinned = False, ts = now - int i \<rparr>)
                 (enumerate 0 ns))
      else [])"
| "getHistory clk (RecordArray rs) =
     filter (\<lambda>e. name e \<noteq> [])
       (map (\<lambda>(i, r). load_record (clk i) r) (enumerate 0 rs))"

definition setHistory :: "entry list \<Rightarrow> persisted" where
  "setHistory arr =
     RecordArray (map (\<lambda>e. \<lparr> sname = Some (name e), spinned = Some (pinned e),
                               sts = Some (ts e) \<rparr>) arr)"

section \<open>Array helpers\<close>

fun findIndex :: "('a \<Rightarrow> bool) \<Rightarrow> 'a list \<Rightarrow> nat option" where
  "findIndex p [] = None"
| "findIndex p (x # xs) = (if p x then Some 0 else map_option Suc (findIndex p xs))"

text \<open>\<^verbatim>\<open>splice(i, 1)\<close>.\<close>

definition splice1 :: "nat \<Rightarrow> 'a list \<Rightarrow> 'a list" where
  "splice1 i xs = take i xs @ drop (Suc i) xs"

text \<open>
  The comparator \<^verbatim>\<open>(a,b) => (b.pinned - a.pinned) || (b.ts - a.ts)\<close> and a stable sort
  with it: an element goes before another when the comparator is not positive.
\<close>

definition cmp :: "entry \<Rightarrow> entry \<Rightarrow> int" where
  "cmp a b =
     (let d = of_bool (pinned b) - of_bool (pinned a)
      in if d \<noteq> 0 then d else ts b - ts a)"

fun insert_by :: "('a \<Rightarrow> 'a \<Rightarrow> int) \<Rightarrow> 'a \<Rightarrow> 'a list \<Rightarrow> 'a list" where
  "insert_by f x [] = [x]"
| "insert_by f x (y # ys) = (if f x y \<le> 0 then x # y # ys else y # insert_by f x ys)"

fun sort_by :: "('a \<Rightarrow> 'a \<Rightarrow> int) \<Rightarrow> 'a list \<Rightarrow> 'a list" where
  "sort_by f [] = []"
| "sort_by f (x # xs) = insert_by f x (sort_by f xs)"

section \<open>The store operations\<close>

text \<open>
  Every operation takes the persisted value and returns the new one with the list it
  hands back. \<open>lc\<close> is \<^verbatim>\<open>String.prototype.toLowerCase\<close>, \<open>now\<close> the reading of
  \<^verbatim>\<open>Date.now()\<close> inside the operation. A write to \<^verbatim>\<open>localStorage\<close> is taken to
  succeed.
\<close>

definition upsertCity ::
  "(jsstring \<Rightarrow> jsstring) \<Rightarrow> (nat \<Rightarrow> int) \<Rightarrow> int \<Rightarrow> jsstring \<Rightarrow> persisted
     \<Rightarrow> persisted \<times> entry list" where
  "upsertCity lc clk now nm st =
     (let normalized = trim nm;
          arr = getHistory clk st;
          arr1 = (case findIndex (\<lambda>x. lc (name x) = lc normalized) arr of
                    Some i \<Rightarrow> arr[i := (arr ! i)\<lparr> name := normalized, ts := now \<rparr>]
                  | None \<Rightarrow> \<lparr> name = normalized, pinned = False, ts = now \<rparr> # arr);
          arr2 = take 8 (sort_by cmp arr1)
      in (setHistory arr2, arr2))"

definition deleteCity ::
  "(jsstring \<Rightarrow> jsstring) \<Rightarrow> (nat \<Rightarrow> int) \<Rightarrow> jsstring \<Rightarrow> persisted
     \<Rightarrow> persisted \<times> entry list" where
  "deleteCity lc clk nm st =
     (let arr = filter (\<lambda>x. lc (name x) \<noteq> lc nm) (getHistory clk st)
      in (setHistory arr, arr))"

definition clearHistoryAll :: "persisted \<Rightarrow> persisted \<times> entry list" where
  "clearHistoryAll st = (setHistory [], [])"

definition togglePin ::
  "(jsstring \<Rightarrow> jsstring) \<Rightarrow> (nat \<Rightarrow> int) \<Rightarrow> int \<Rightarrow> jsstring \<Rightarrow> persisted
     \<Rightarrow> persisted \<times> entry list" where
  "togglePin lc clk now nm st =
     (let arr = getHistory clk st
      in case findIndex (\<lambda>x. lc (name x) = lc nm) arr of
           Some i \<Rightarrow>
             (let arr1 = sort_by cmp
                           (arr[i := (arr ! i)\<lparr> pinned := \<not> pinned (arr ! i), ts := now \<rparr>])
              in (setHistory arr1, arr1))
         | None \<Rightarrow> (st, arr))"

text \<open>
  \<open>renameCity\<close> asks the user with \<^verbatim>\<open>prompt\<close>: \<open>answer\<close> is \<open>None\<close> when the dialog is
  cancelled. The three \<^verbatim>\<open>alert\<close> messages are the third component of the result.
\<close>

datatype alert = EmptyName | TooLong | BadFormat

definition renameCity ::
  "(jsstring \<Rightarrow> jsstring) \<Rightarrow> (nat \<Rightarrow> int) \<Rightarrow> int \<Rightarrow> jsstring option
     \<Rightarrow> jsstring \<Rightarrow> (jsstring \<Rightarrow> jsstring) \<Rightarrow> (jsstring \<Rightarrow> bool) \<Rightarrow> persisted
     \<Rightarrow> persisted \<times> entry list \<times> alert option" where
  "renameCity lc clk now answer oldName normalizeFn regex st =
     (let current = getHistory clk st
      in case findIndex (\<lambda>x. lc (name x) = lc oldName) current of
           None \<Rightarrow> (st, current, None)
         | Some i \<Rightarrow>
            (case answer of
               None \<Rightarrow> (st, current, None)
             | Some raw \<Rightarrow>
                (let nn = normalizeFn raw
                 in if nn = [] then (st, current, Some EmptyName)
                    else if length nn > 80 then (st, current, Some TooLong)
                    else if \<not> regex nn then (st, current, Some BadFormat)
                    else
                      (let renamed = current[i := (current ! i)\<lparr> name := nn, ts := now \<rparr>];
                           current1 =
                             (case findIndex (\<lambda>x. lc (name x) = lc nn) current of
                                Some j \<Rightarrow>
                                  if j \<noteq> i
                                  then splice1 i
                                         (current[j := (current ! j)
                                            \<lparr> pinned := pinned (current ! j) \<or> pinned (current ! i),
                                              ts := now \<rparr>])
                                  else renamed
                              | None \<Rightarrow> renamed);
                           current2 = sort_by cmp current1
                       in (setHistory current2, current2, None)))))"

section \<open>Properties stated by the specification\<close>

text \<open>
  The ranking of the specification: pinned entries first, and among entries with the
  same pin state the more recently touched first.
\<close>

definition ranks_before :: "entry \<Rightarrow> entry \<Rightarrow> bool" where
  "ranks_before a b \<longleftrightarrow> (pinned a \<and> \<not> pinned b) \<or> (pinned a = pinned b \<and> ts b \<le> ts a)"

definition ordered :: "entry list \<Rightarrow> bool" where
  "ordered xs = sorted_wrt ranks_before xs"

text \<open>No two entries have names that are equal when compared in lower case.\<close>

definition unique_names :: "(jsstring \<Rightarrow> jsstring) \<Rightarrow> entry list \<Rightarrow> bool" where
  "unique_names lc arr = distinct (map (\<lambda>e. lc (name e)) arr)"

text \<open>
  The array of \<open>upsertCity\<close> after the update or the \<^verbatim>\<open>unshift\<close>, before it is sorted
  and cut: the candidates for the eight places.
\<close>

definition upsert_candidates ::
  "(jsstring \<Rightarrow> jsstring) \<Rightarrow> int \<Rightarrow> jsstring \<Rightarrow> entry list \<Rightarrow> entry list" where
  "upsert_candidates lc now nm arr =
     (case findIndex (\<lambda>x. lc (name x) = lc (trim nm)) arr of
        Some i \<Rightarrow> arr[i := (arr ! i)\<lparr> name := trim nm, ts := now \<rparr>]
      | None \<Rightarrow> \<lparr> name = trim nm, pinned = False, ts = now \<rparr> # arr)"

section \<open>Sequences of operations\<close>

text \<open>
  The calls the history chips and the search form make. \<open>Rename\<close> carries the old
  name and what the user answers to the prompt; the handler passes \<open>normalizeCity\<close> and
  the city pattern.
\<close>

datatype call =
    Upsert jsstring
  | Delete jsstring
  | Clear
  | TogglePin jsstring
  | Rename jsstring "jsstring option"

fun step ::
  "(jsstring \<Rightarrow> jsstring) \<Rightarrow> (jsstring \<Rightarrow> bool) \<Rightarrow> (nat \<Rightarrow> int) \<Rightarrow> int \<Rightarrow> call \<Rightarrow> persisted
     \<Rightarrow> persisted \<times> entry list" where
  "step lc regex clk now (Upsert nm) st = upsertCity lc clk now nm st"
| "step lc regex clk now (Delete nm) st = deleteCity lc clk nm st"
| "step lc regex clk now Clear st = clearHistoryAll st"
| "step lc regex clk now (TogglePin nm) st = togglePin lc clk now nm st"
| "step lc regex clk now (Rename oldName answer) st =
     (case renameCity lc clk now answer oldName normalizeCity regex st of
        (st', arr, _) \<Rightarrow> (st', arr))"

fun run ::
  "(jsstring \<Rightarrow> jsstring) \<Rightarrow> (jsstring \<Rightarrow> bool) \<Rightarrow> ((nat \<Rightarrow> int) \<times> int \<times> call) list
     \<Rightarrow> persisted \<Rightarrow> persisted" where
  "run lc regex [] st = st"
| "run lc regex ((clk, now, c) # cs) st = run lc regex cs (fst (step lc regex clk now c st))"

text \<open>
  A sequence of \<open>upsertCity\<close> calls, each with its own clock readings; the persisted
  value is threaded through.
\<close>

fun upsertMany ::
  "(jsstring \<Rightarrow> jsstring) \<Rightarrow> ((nat \<Rightarrow> int) \<times> int \<times> jsstring) list \<Rightarrow> persisted \<Rightarrow> persisted"
  where
  "upsertMany lc [] st = st"
| "upsertMany lc ((clk, now, nm) # calls) st =
     upsertMany lc calls (fst (upsertCity lc clk now nm st))"

section \<open>Predicates of the proofs\<close>

text \<open>
  The shape of a string after trimming and collapsing: no white space at either end,
  and every white space inside is a single space character between two other
  characters.
\<close>

fun tidy :: "jsstring \<Rightarrow> bool" where
  "tidy [] = True"
| "tidy [c] = (\<not> is_space c)"
| "tidy (c # d # cs) =
     (\<not> is_space c \<and> (if is_space d then d = 32 \<and> cs \<noteq> [] \<and> tidy cs else tidy (d # cs)))"

text \<open>The names are trimmed and not empty: what the object branch of the loader keeps.\<close>

definition clean :: "entry list \<Rightarrow> bool" where
  "clean arr \<longleftrightarrow> (\<forall>e\<in>set arr. name e \<noteq> [] \<and> trim (name e) = name e)"

text \<open>
  The persisted value holds a clean list of at most eight entries which, while it has
  fewer than eight, has an entry for each of the lower-cased names in \<open>C\<close>.
\<close>

definition settled :: "(jsstring \<Rightarrow> jsstring) \<Rightarrow> jsstring set \<Rightarrow> persisted \<Rightarrow> bool" where
  "settled lc C st \<longleftrightarrow>
     (\<exists>S. st = setHistory S \<and> clean S \<and> length S \<le> 8
          \<and> (length S < 8 \<longrightarrow> C \<subseteq> (\<lambda>e. lc (name e)) ` set S))"

text \<open>
  Every name is trimmed, and the persisted value loads, whatever the clock, as a list
  of trimmed names without case-insensitive duplicates. The object branch of the loader
  yields trimmed names; the legacy branch does so when the stored strings are trimmed.
\<close>

definition trimmed :: "entry list \<Rightarrow> bool" where
  "trimmed arr \<longleftrightarrow> (\<forall>e\<in>set arr. trim (name e) = name e)"

definition sound :: "(jsstring \<Rightarrow> jsstring) \<Rightarrow> persisted \<Rightarrow> bool" where
  "sound lc st \<longleftrightarrow> (\<forall>clk. trimmed (getHistory clk st) \<and> unique_names lc (getHistory clk st))"

section \<open>Concrete instances\<close>

text \<open>
  \<^verbatim>\<open>toLowerCase\<close> on strings of ASCII characters, for the concrete instances; the
  general theorems hold for every function \<open>lc\<close>.
\<close>

definition lower_ascii :: "jsstring \<Rightarrow> jsstring" where
  "lower_ascii s = map (\<lambda>c. if 65 \<le> c \<and> c \<le> 90 then c + 32 else c) s"

text \<open>A full history of eight pinned cities.\<close>

definition pins8 :: "entry list" where
  "pins8 =
     [\<lparr> name = str ''A'', pinned = True, ts = 1 \<rparr>, \<lparr> name = str ''B'', pinned = True, ts = 2 \<rparr>,
      \<lparr> name = str ''C'', pinned = True, ts = 3 \<rparr>, \<lparr> name = str ''D'', pinned = True, ts = 4 \<rparr>,
      \<lparr> name = str ''E'', pinned = True, ts = 5 \<rparr>, \<lparr> name = str ''F'', pinned = True, ts = 6 \<rparr>,
      \<lparr> name = str ''G'', pinned = True, ts = 7 \<rparr>, \<lparr> name = str ''H'', pinned = True, ts = 8 \<rparr>]"

text \<open>A pinned and an unpinned city.\<close>

definition tokyo_tijuana :: "entry list" where
  "tokyo_tijuana =
     [\<lparr> name = str ''Tokyo'', pinned = True, ts = 50 \<rparr>,
      \<lparr> name = str ''Tijuana'', pinned = False, ts = 100 \<rparr>]"

text \<open>Two entries whose names differ in case only.\<close>

definition twins :: "entry list" where
  "twins =
     [\<lparr> name = str ''a'', pinned = True, ts = 2 \<rparr>,
      \<lparr> name = str ''A'', pinned = False, ts = 1 \<rparr>]"

text \<open>
  Nine searches for nine different cities, nine searches that differ in case only, and
  ten searches of which one is for a blank name.
\<close>

definition nine_calls :: "((nat \<Rightarrow> int) \<times> int \<times> jsstring) list" where
  "nine_calls =
     [(\<lambda>_. 0, 1, str ''a''), (\<lambda>_. 0, 2, str ''b''), (\<lambda>_. 0, 3, str ''c''),
      (\<lambda>_. 0, 4, str ''d''), (\<lambda>_. 0, 5, str ''e''), (\<lambda>_. 0, 6, str ''f''),
      (\<lambda>_. 0, 7, str ''g''), (\<lambda>_. 0, 8, str ''h''), (\<lambda>_. 0, 9, str ''i'')]"

definition case_calls :: "((nat \<Rightarrow> int) \<times> int \<times> jsstring) list" where
  "case_calls =
     [(\<lambda>_. 0, 1, str ''a''), (\<lambda>_. 0, 2, str ''A''), (\<lambda>_. 0, 3, str ''b''),
      (\<lambda>_. 0, 4, str ''B''), (\<lambda>_. 0, 5, str ''c''), (\<lambda>_. 0, 6, str ''C''),
      (\<lambda>_. 0, 7, str ''d''), (\<lambda>_. 0, 8, str ''D''), (\<lambda>_. 0, 9, str ''e'')]"

definition blank_calls :: "((nat \<Rightarrow> int) \<times> int \<times> jsstring) list" where
  "blank_calls =
     [(\<lambda>_. 0, 1, str ''a''), (\<lambda>_. 0, 2, str ''b''), (\<lambda>_. 0, 3, str ''c''),
      (\<lambda>_. 0, 4, str ''d''), (\<lambda>_. 0, 5, str ''e''), (\<lambda>_. 0, 6, str ''f''),
      (\<lambda>_. 0, 7, str ''g''), (\<lambda>_. 0, 8, str ''h''), (\<lambda>_. 0, 9, str '' ''),
      (\<lambda>_. 0, 10, str ''b'')]"

text \<open>A legacy value whose two names differ in a trailing space only.\<close>

definition legacy_spaced :: persisted where
  "legacy_spaced = StringArray [str ''a '', str ''a'']"

section \<open>Lemmas on the array helpers\<close>

lemma findIndex_None_iff: "findIndex p xs = None \<longleftrightarrow> (\<forall>x\<in>set xs. \<not> p x)"
  by (induction xs) auto

lemma findIndex_Some_bound: "findIndex p xs = Some i \<Longrightarrow> i < length xs \<and> p (xs ! i)"
  by (induction xs arbitrary: i) (auto split: if_splits)

lemma findIndex_Some_first: "findIndex p xs = Some i \<Longrightarrow> k < i \<Longrightarrow> \<not> p (xs ! k)"
proof (induction xs arbitrary: i k)
  case Nil
  then show ?case by simp
next
  case (Cons x xs)
  then show ?case by (cases k) (auto split: if_splits)
qed

lemma set_insert_by: "set (insert_by f x xs) = insert x (set xs)"
  by (induction xs) auto

lemma set_sort_by: "set (sort_by f xs) = set xs"
  by (induction xs) (auto simp: set_insert_by)

lemma length_insert_by: "length (insert_by f x xs) = Suc (length xs)"
  by (induction xs) auto

lemma length_sort_by: "length (sort_by f xs) = length xs"
  by (induction xs) (auto simp: length_insert_by)

lemma insert_by_last: "\<forall>y\<in>set ys. 0 < f x y \<Longrightarrow> insert_by f x ys = ys @ [x]"
  by (induction ys) auto

lemma cmp_unpinned_pinned: "\<not> pinned a \<Longrightarrow> pinned b \<Longrightarrow> cmp a b = 1"
  by (simp add: cmp_def)

lemma getHistory_pins8: "getHistory (\<lambda>_. 0) (setHistory pins8) = pins8"
  by (simp add: setHistory_def pins8_def load_record_def str_def trim_def is_space_def enumerate_eq_zip)

section \<open>Rename: validation failure\<close>

text \<open>
  C5. When the user's answer, once normalized, is empty, longer than 80 code units or
  rejected by the pattern, \<open>renameCity\<close> hands back the list it loaded and the persisted
  value is the one it found: nothing is written.
\<close>

theorem renameCity_invalid_no_change:
  assumes "normalizeFn raw = [] \<or> length (normalizeFn raw) > 80 \<or> \<not> regex (normalizeFn raw)"
  shows "fst (renameCity lc clk now (Some raw) oldName normalizeFn regex st) = st
       \<and> fst (snd (renameCity lc clk now (Some raw) oldName normalizeFn regex st))
           = getHistory clk st"
  using assms by (auto simp: renameCity_def Let_def split: option.splits)

theorem renameCity_invalid_no_change_witness:
  "normalizeCity (str ''   '') = []
   \<and> fst (renameCity lower_ascii (\<lambda>_. 0) 7 (Some (str ''   '')) (str ''a'') normalizeCity
            (\<lambda>_. True) (setHistory pins8)) = setHistory pins8
   \<and> fst (snd (renameCity lower_ascii (\<lambda>_. 0) 7 (Some (str ''   '')) (str ''a'') normalizeCity
            (\<lambda>_. True) (setHistory pins8))) = pins8"
proof -
  have h: "normalizeCity (str ''   '') = []"
    by (simp add: normalizeCity_def str_def trim_def is_space_def)
  show ?thesis
    using h getHistory_pins8
      renameCity_invalid_no_change [of normalizeCity "str ''   ''" "\<lambda>_. True" lower_ascii
        "\<lambda>_. 0" 7 "str ''a''" "setHistory pins8"]
    by simp
qed

section \<open>Operations on a name that is not in the history\<close>

text \<open>
  C8. When no entry of the loaded list matches the name case-insensitively,
  \<open>deleteCity\<close>, \<open>togglePin\<close> and \<open>renameCity\<close> hand back the loaded list as it is.
  \<open>togglePin\<close> and \<open>renameCity\<close> write nothing; \<open>deleteCity\<close> writes the loaded list.
  The operations are functions without an error result: no branch of them raises.
\<close>

theorem not_found_is_noop:
  assumes "\<forall>e\<in>set (getHistory clk st). lc (name e) \<noteq> lc nm"
  shows "deleteCity lc clk nm st = (setHistory (getHistory clk st), getHistory clk st)
       \<and> togglePin lc clk now nm st = (st, getHistory clk st)
       \<and> renameCity lc clk now answer nm normalizeFn regex st = (st, getHistory clk st, None)"
proof -
  have none: "findIndex (\<lambda>x. lc (name x) = lc nm) (getHistory clk st) = None"
    using assms by (simp add: findIndex_None_iff)
  have keep: "filter (\<lambda>x. lc (name x) \<noteq> lc nm) (getHistory clk st) = getHistory clk st"
    using assms by (simp add: filter_id_conv)
  show ?thesis
    by (simp add: deleteCity_def togglePin_def renameCity_def none keep Let_def)
qed

theorem not_found_is_noop_witness:
  "deleteCity lower_ascii (\<lambda>_. 0) (str ''Nonexistent'') (setHistory pins8)
     = (setHistory pins8, pins8)
   \<and> togglePin lower_ascii (\<lambda>_. 0) 9 (str ''Nonexistent'') (setHistory pins8)
     = (setHistory pins8, pins8)
   \<and> renameCity lower_ascii (\<lambda>_. 0) 9 (Some (str ''Lima'')) (str ''Nonexistent'')
        normalizeCity (\<lambda>_. True) (setHistory pins8)
     = (setHistory pins8, pins8, None)"
proof -
  have h: "\<forall>e\<in>set (getHistory (\<lambda>_. 0) (setHistory pins8)).
             lower_ascii (name e) \<noteq> lower_ascii (str ''Nonexistent'')"
    unfolding getHistory_pins8 by (simp add: pins8_def lower_ascii_def str_def)
  show ?thesis
    using not_found_is_noop [OF h, of 9 "Some (str ''Lima'')" normalizeCity "\<lambda>_. True"]
    by (simp add: getHistory_pins8)
qed

section \<open>Loading legacy and malformed data\<close>

text \<open>
  C9. A stored array of strings is loaded as one unpinned entry per string, in the
  stored order, entry \<open>i\<close> with the timestamp \<open>now - i\<close>, so the timestamps descend
  strictly. Nothing stored, unparsable text and a value that is not an array load as
  the empty list. \<open>getHistory\<close> has no write in it: it is a function of the persisted
  value, which stays what it was until an operation that writes.
\<close>

theorem getHistory_legacy_and_malformed:
  "getHistory clk Missing = [] \<and> getHistory clk Unparsable = [] \<and> getHistory clk NotArray = []
   \<and> length (getHistory clk (StringArray ns)) = length ns
   \<and> (\<forall>i<length ns. getHistory clk (StringArray ns) ! i
          = \<lparr> name = ns ! i, pinned = False, ts = clk 0 - int i \<rparr>)
   \<and> sorted_wrt (\<lambda>a b. ts b < ts a) (getHistory clk (StringArray ns))"
proof -
  have len: "length (getHistory clk (StringArray ns)) = length ns"
    by simp
  have nth: "\<forall>i<length ns. getHistory clk (StringArray ns) ! i
          = \<lparr> name = ns ! i, pinned = False, ts = clk 0 - int i \<rparr>"
    by (auto simp: nth_enumerate_eq)
  have "sorted_wrt (\<lambda>a b. ts b < ts a) (getHistory clk (StringArray ns))"
    unfolding sorted_wrt_iff_nth_less using nth len by auto
  with len nth show ?thesis by simp
qed

theorem getHistory_legacy_and_malformed_witness:
  "getHistory (\<lambda>_. 1000) (StringArray [str ''Paris'', str ''Tokyo'', str ''Lima''])
     = [\<lparr> name = str ''Paris'', pinned = False, ts = 1000 \<rparr>,
        \<lparr> name = str ''Tokyo'', pinned = False, ts = 999 \<rparr>,
        \<lparr> name = str ''Lima'', pinned = False, ts = 998 \<rparr>]"
proof -
  let ?ns = "[str ''Paris'', str ''Tokyo'', str ''Lima'']"
  let ?h = "getHistory (\<lambda>_. 1000) (StringArray ?ns)"
  note t = getHistory_legacy_and_malformed [of "\<lambda>_. 1000" ?ns]
  from t have len: "length ?h = 3" by simp
  from t have n0: "?h ! 0 = \<lparr> name = str ''Paris'', pinned = False, ts = 1000 \<rparr>" by simp
  from t have "1 < length ?ns \<longrightarrow> ?h ! 1 = \<lparr> name = ?ns ! 1, pinned = False, ts = 1000 - int 1 \<rparr>"
    by blast
  then have n1: "?h ! 1 = \<lparr> name = str ''Tokyo'', pinned = False, ts = 999 \<rparr>" by simp
  from t have "2 < length ?ns \<longrightarrow> ?h ! 2 = \<lparr> name = ?ns ! 2, pinned = False, ts = 1000 - int 2 \<rparr>"
    by blast
  then have n2: "?h ! 2 = \<lparr> name = str ''Lima'', pinned = False, ts = 998 \<rparr>" by simp
  show ?thesis
    by (rule nth_equalityI) (use len n0 n1 n2 in \<open>auto simp: less_Suc_eq numeral_3_eq_3\<close>)
qed

section \<open>Upsert into a history of eight pinned cities\<close>

text \<open>
  C10. When the loaded list has eight entries, all pinned, and none matches the new
  name, \<open>upsertCity\<close> returns and persists the eight pinned entries, sorted: the new
  unpinned entry ranks last of nine and is cut off, so the result does not contain the
  city just searched.
\<close>

theorem upsert_evicted_when_all_pinned:
  assumes len: "length (getHistory clk st) = 8"
    and pin: "\<forall>e\<in>set (getHistory clk st). pinned e"
    and new: "\<forall>e\<in>set (getHistory clk st). lc (name e) \<noteq> lc (trim nm)"
  shows "upsertCity lc clk now nm st
           = (setHistory (sort_by cmp (getHistory clk st)), sort_by cmp (getHistory clk st))
       \<and> (\<forall>e\<in>set (snd (upsertCity lc clk now nm st)). pinned e \<and> lc (name e) \<noteq> lc (trim nm))"
proof -
  let ?arr = "getHistory clk st"
  let ?e = "\<lparr> name = trim nm, pinned = False, ts = now \<rparr>"
  have none: "findIndex (\<lambda>x. lc (name x) = lc (trim nm)) ?arr = None"
    using new by (simp add: findIndex_None_iff)
  have "\<forall>y\<in>set (sort_by cmp ?arr). 0 < cmp ?e y"
    using pin by (simp add: set_sort_by cmp_unpinned_pinned)
  then have "insert_by cmp ?e (sort_by cmp ?arr) = sort_by cmp ?arr @ [?e]"
    by (rule insert_by_last)
  then have "take 8 (sort_by cmp (?e # ?arr)) = sort_by cmp ?arr"
    using len by (simp add: length_sort_by)
  then have eq: "upsertCity lc clk now nm st = (setHistory (sort_by cmp ?arr), sort_by cmp ?arr)"
    by (simp add: upsertCity_def none Let_def)
  show ?thesis
    using pin new by (simp add: eq set_sort_by)
qed

theorem upsert_evicted_when_all_pinned_witness:
  "length (getHistory (\<lambda>_. 0) (setHistory pins8)) = 8
   \<and> map name (snd (upsertCity lower_ascii (\<lambda>_. 0) 100 (str ''Lima'') (setHistory pins8)))
       = [str ''H'', str ''G'', str ''F'', str ''E'', str ''D'', str ''C'', str ''B'', str ''A'']"
proof -
  have len: "length (getHistory (\<lambda>_. 0) (setHistory pins8)) = 8"
    unfolding getHistory_pins8 by (simp add: pins8_def)
  have pin: "\<forall>e\<in>set (getHistory (\<lambda>_. 0) (setHistory pins8)). pinned e"
    unfolding getHistory_pins8 by (simp add: pins8_def)
  have new: "\<forall>e\<in>set (getHistory (\<lambda>_. 0) (setHistory pins8)).
               lower_ascii (name e) \<noteq> lower_ascii (trim (str ''Lima''))"
    unfolding getHistory_pins8 by (simp add: pins8_def lower_ascii_def str_def trim_def is_space_def)
  have srt: "map name (sort_by cmp pins8)
       = [str ''H'', str ''G'', str ''F'', str ''E'', str ''D'', str ''C'', str ''B'', str ''A'']"
    by (simp add: pins8_def cmp_def)
  show ?thesis
    using upsert_evicted_when_all_pinned [OF len pin new, of 100] len srt
    by (simp add: getHistory_pins8)
qed

lemma getHistory_tokyo_tijuana: "getHistory (\<lambda>_. 0) (setHistory tokyo_tijuana) = tokyo_tijuana"
  by (simp add: setHistory_def tokyo_tijuana_def load_record_def str_def trim_def is_space_def
      enumerate_eq_zip)

lemma mset_insert_by: "mset (insert_by f x xs) = add_mset x (mset xs)"
  by (induction xs) auto

lemma mset_sort_by: "mset (sort_by f xs) = mset xs"
  by (induction xs) (auto simp: mset_insert_by)

lemma mset_splice1: "i < length xs \<Longrightarrow> mset (splice1 i xs) = mset xs - {#xs ! i#}"
proof -
  assume "i < length xs"
  then have "xs = take i xs @ xs ! i # drop (Suc i) xs"
    by (rule id_take_nth_drop)
  then have "mset xs = add_mset (xs ! i) (mset (splice1 i xs))"
    by (metis splice1_def mset.simps(2) mset_append union_mset_add_mset_right)
  then show ?thesis by simp
qed

lemma findIndex_unique:
  "distinct (map f xs) \<Longrightarrow> i < length xs \<Longrightarrow> findIndex (\<lambda>x. f x = f (xs ! i)) xs = Some i"
proof (induction xs arbitrary: i)
  case Nil
  then show ?case by simp
next
  case (Cons x xs)
  show ?case
  proof (cases i)
    case 0
    then show ?thesis by simp
  next
    case (Suc k)
    then have k: "k < length xs" using Cons.prems by simp
    then have "f (xs ! k) \<in> f ` set xs" by simp
    then have "f x \<noteq> f (xs ! k)" using Cons.prems by auto
    moreover have "findIndex (\<lambda>x. f x = f (xs ! k)) xs = Some k"
      using Cons.IH [of k] Cons.prems k by simp
    ultimately show ?thesis using Suc by simp
  qed
qed

lemma unique_match:
  assumes d: "distinct (map f xs)" and k: "k < length xs"
    and x: "x \<in># mset xs - {#xs ! k#}"
  shows "f x \<noteq> f (xs ! k)"
proof
  assume eq: "f x = f (xs ! k)"
  have "x \<in> set xs" using x by (meson in_diffD in_multiset_in_set)
  moreover have "inj_on f (set xs)" using d by (simp add: distinct_map)
  ultimately have "x = xs ! k" using eq k by (auto dest: inj_onD)
  moreover have "count (mset xs) (xs ! k) = 1"
    using d k by (metis distinct_count_atmost_1 distinct_map nth_mem)
  ultimately have "count (mset xs - {#xs ! k#}) x = 0" by simp
  then have "x \<notin># mset xs - {#xs ! k#}" by (simp only: not_in_iff)
  with x show False by contradiction
qed

lemma rename_merge_result:
  assumes arr: "getHistory clk st = arr"
    and src: "findIndex (\<lambda>x. lc (name x) = lc oldName) arr = Some i"
    and tgt: "findIndex (\<lambda>x. lc (name x) = lc (normalizeFn raw)) arr = Some j"
    and ne: "j \<noteq> i"
    and valid: "normalizeFn raw \<noteq> []" "length (normalizeFn raw) \<le> 80" "regex (normalizeFn raw)"
  shows "renameCity lc clk now (Some raw) oldName normalizeFn regex st
       = (setHistory (sort_by cmp (splice1 i (arr[j := (arr ! j)\<lparr> pinned := pinned (arr ! j) \<or> pinned (arr ! i), ts := now \<rparr>]))),
          sort_by cmp (splice1 i (arr[j := (arr ! j)\<lparr> pinned := pinned (arr ! j) \<or> pinned (arr ! i), ts := now \<rparr>])),
          None)"
  using assms by (simp add: renameCity_def Let_def)

lemma merge_mset:
  assumes i: "i < length arr" and j: "j < length arr" and ne: "j \<noteq> i"
  shows "mset (sort_by cmp (splice1 i (arr[j := m])))
       = add_mset m (mset arr - {#arr ! i, arr ! j#})"
proof -
  have "mset (sort_by cmp (splice1 i (arr[j := m]))) = mset (arr[j := m]) - {#arr ! i#}"
    using i ne by (simp add: mset_sort_by mset_splice1)
  also have "mset (arr[j := m]) = add_mset m (mset arr - {#arr ! j#})"
    using j by (simp add: mset_update)
  also have "add_mset m (mset arr - {#arr ! j#}) - {#arr ! i#}
           = add_mset m (mset arr - {#arr ! j#} - {#arr ! i#})"
  proof -
    have "arr ! i \<in># mset arr - {#arr ! j#}"
    proof -
      have "mset arr - {#arr ! j#} = mset (splice1 j arr)"
        using j by (simp add: mset_splice1)
      moreover have "arr ! i \<in> set (splice1 j arr)"
      proof (cases "i < j")
        case True
        then have "arr ! i = take j arr ! i" by simp
        moreover have "i < length (take j arr)" using True j by simp
        ultimately have "arr ! i \<in> set (take j arr)" by (metis nth_mem)
        then show ?thesis by (simp add: splice1_def)
      next
        case False
        then have lt: "j < i" using ne by simp
        then have "arr ! i = drop (Suc j) arr ! (i - Suc j)" using i by simp
        moreover have "i - Suc j < length (drop (Suc j) arr)" using lt i by simp
        ultimately have "arr ! i \<in> set (drop (Suc j) arr)" by (metis nth_mem)
        then show ?thesis by (simp add: splice1_def)
      qed
      ultimately show ?thesis by simp
    qed
    then show ?thesis by (simp add: add_mset_diff_bothsides insert_DiffM)
  qed
  finally show ?thesis by (simp add: diff_diff_add_mset add_mset_commute)
qed

section \<open>The order of the list\<close>

lemma cmp_le_iff: "cmp a b \<le> 0 \<longleftrightarrow> ranks_before a b"
  by (auto simp: cmp_def ranks_before_def Let_def)

lemma ranks_before_total: "\<not> ranks_before a b \<Longrightarrow> ranks_before b a"
  by (auto simp: ranks_before_def)

lemma ranks_before_trans: "ranks_before a b \<Longrightarrow> ranks_before b c \<Longrightarrow> ranks_before a c"
  by (auto simp: ranks_before_def)

lemma ordered_insert_by: "ordered xs \<Longrightarrow> ordered (insert_by cmp x xs)"
proof (induction xs)
  case Nil
  then show ?case by (simp add: ordered_def)
next
  case (Cons y ys)
  show ?case
  proof (cases "cmp x y \<le> 0")
    case True
    then have "ranks_before x y" by (simp add: cmp_le_iff)
    moreover have "\<forall>z\<in>set ys. ranks_before y z"
      using Cons.prems by (simp add: ordered_def)
    ultimately have "\<forall>z\<in>set (y # ys). ranks_before x z"
      by (auto intro: ranks_before_trans)
    with True Cons.prems show ?thesis by (simp add: ordered_def)
  next
    case False
    then have yx: "ranks_before y x"
      by (simp add: cmp_le_iff ranks_before_total)
    have "ordered ys" using Cons.prems by (simp add: ordered_def)
    then have "ordered (insert_by cmp x ys)" by (rule Cons.IH)
    moreover have "\<forall>z\<in>set (insert_by cmp x ys). ranks_before y z"
      using Cons.prems yx by (auto simp: set_insert_by ordered_def)
    ultimately show ?thesis using False by (simp add: ordered_def)
  qed
qed

lemma ordered_sort_by: "ordered (sort_by cmp xs)"
  by (induction xs) (simp_all add: ordered_def ordered_insert_by [unfolded ordered_def])

lemma ordered_take: "ordered xs \<Longrightarrow> ordered (take n xs)"
  unfolding ordered_def by (rule sorted_wrt_take)

lemma ordered_filter: "ordered xs \<Longrightarrow> ordered (filter p xs)"
  unfolding ordered_def by (rule sorted_wrt_filter)

text \<open>
  C1. When the loaded list is sorted by pin state (pinned first) and then by timestamp
  (latest first), the list that \<open>upsertCity\<close>, \<open>deleteCity\<close>, \<open>clearHistoryAll\<close>,
  \<open>togglePin\<close> or \<open>renameCity\<close> hands back is sorted in the same way. \<open>deleteCity\<close>
  does not sort: it only removes entries, which keeps a sorted list sorted.
\<close>

theorem order_invariant:
  assumes "ordered (getHistory clk st)"
  shows "ordered (snd (upsertCity lc clk now nm st))
       \<and> ordered (snd (deleteCity lc clk nm st))
       \<and> ordered (snd (clearHistoryAll st))
       \<and> ordered (snd (togglePin lc clk now nm st))
       \<and> ordered (fst (snd (renameCity lc clk now answer nm normalizeFn regex st)))"
proof -
  have up: "ordered (snd (upsertCity lc clk now nm st))"
    by (simp add: upsertCity_def Let_def ordered_take ordered_sort_by)
  have del: "ordered (snd (deleteCity lc clk nm st))"
    using assms by (simp add: deleteCity_def Let_def ordered_filter)
  have clr: "ordered (snd (clearHistoryAll st))"
    by (simp add: clearHistoryAll_def ordered_def)
  have tog: "ordered (snd (togglePin lc clk now nm st))"
    using assms by (simp add: togglePin_def Let_def ordered_sort_by split: option.splits)
  have ren: "ordered (fst (snd (renameCity lc clk now answer nm normalizeFn regex st)))"
    using assms by (simp add: renameCity_def Let_def ordered_sort_by split: option.splits)
  from up del clr tog ren show ?thesis by simp
qed

theorem order_invariant_witness:
  "ordered (getHistory (\<lambda>_. 0) (setHistory tokyo_tijuana))
   \<and> ordered (snd (upsertCity lower_ascii (\<lambda>_. 0) 200 (str ''Lima'') (setHistory tokyo_tijuana)))
   \<and> ordered (snd (deleteCity lower_ascii (\<lambda>_. 0) (str ''tokyo'') (setHistory tokyo_tijuana)))
   \<and> ordered (snd (togglePin lower_ascii (\<lambda>_. 0) 200 (str ''tokyo'') (setHistory tokyo_tijuana)))"
proof -
  have h: "ordered (getHistory (\<lambda>_. 0) (setHistory tokyo_tijuana))"
    unfolding getHistory_tokyo_tijuana
    by (simp add: ordered_def ranks_before_def tokyo_tijuana_def)
  from order_invariant [OF h, of lower_ascii 200 "str ''Lima''"]
  have a: "ordered (snd (upsertCity lower_ascii (\<lambda>_. 0) 200 (str ''Lima'') (setHistory tokyo_tijuana)))"
    by simp
  from order_invariant [OF h, of lower_ascii 200 "str ''tokyo''"]
  have b: "ordered (snd (deleteCity lower_ascii (\<lambda>_. 0) (str ''tokyo'') (setHistory tokyo_tijuana)))"
    and c: "ordered (snd (togglePin lower_ascii (\<lambda>_. 0) 200 (str ''tokyo'') (setHistory tokyo_tijuana)))"
    by simp_all
  from h a b c show ?thesis by simp
qed

section \<open>Rename onto an existing name\<close>

text \<open>
  C4, as the code has it. In a list without case-insensitive duplicates, let entry
  \<open>i\<close> match the old name and a different entry \<open>j\<close> match the validated new name.
  Then \<open>renameCity\<close> persists and returns a list made of the other entries, unchanged,
  and of entry \<open>j\<close> with the pin flag \<open>pinned j \<or> pinned i\<close> and the timestamp \<open>now\<close>.
  That entry is the only one matching the new name, and no entry matches the old name
  any more.
\<close>

theorem rename_merges_into_existing:
  assumes arr: "getHistory clk st = arr"
    and uniq: "unique_names lc arr"
    and i: "i < length arr" and src: "lc (name (arr ! i)) = lc oldName"
    and j: "j < length arr" and tgt: "lc (name (arr ! j)) = lc (normalizeFn raw)"
    and ne: "j \<noteq> i"
    and valid: "normalizeFn raw \<noteq> []" "length (normalizeFn raw) \<le> 80" "regex (normalizeFn raw)"
  shows "\<exists>res. renameCity lc clk now (Some raw) oldName normalizeFn regex st
                 = (setHistory res, res, None)
          \<and> mset res = add_mset ((arr ! j)\<lparr> pinned := pinned (arr ! j) \<or> pinned (arr ! i), ts := now \<rparr>)
                          (mset arr - {#arr ! i, arr ! j#})
          \<and> filter (\<lambda>e. lc (name e) = lc (normalizeFn raw)) res
              = [(arr ! j)\<lparr> pinned := pinned (arr ! j) \<or> pinned (arr ! i), ts := now \<rparr>]
          \<and> filter (\<lambda>e. lc (name e) = lc oldName) res = []"
proof -
  let ?f = "\<lambda>e. lc (name e)"
  let ?m = "(arr ! j)\<lparr> pinned := pinned (arr ! j) \<or> pinned (arr ! i), ts := now \<rparr>"
  let ?res = "sort_by cmp (splice1 i (arr[j := ?m]))"
  let ?rest = "mset arr - {#arr ! i, arr ! j#}"
  have d: "distinct (map ?f arr)" using uniq by (simp add: unique_names_def)
  have fi: "findIndex (\<lambda>x. lc (name x) = lc oldName) arr = Some i"
    using findIndex_unique [OF d i] src by simp
  have fj: "findIndex (\<lambda>x. lc (name x) = lc (normalizeFn raw)) arr = Some j"
    using findIndex_unique [OF d j] tgt by simp
  have run: "renameCity lc clk now (Some raw) oldName normalizeFn regex st
                 = (setHistory ?res, ?res, None)"
    using arr fi fj ne valid by (rule rename_merge_result)
  have ms: "mset ?res = add_mset ?m ?rest"
    by (rule merge_mset [OF i j ne])
  have differ: "?f (arr ! i) \<noteq> ?f (arr ! j)"
    using nth_eq_iff_index_eq [OF d, of i j] i j ne by simp
  have swap: "{#arr ! i, arr ! j#} = {#arr ! j, arr ! i#}"
    by (rule add_mset_commute)
  have split_j: "?rest = mset arr - {#arr ! j#} - {#arr ! i#}"
    by simp
  have split_i: "?rest = mset arr - {#arr ! i#} - {#arr ! j#}"
    unfolding swap by simp
  have rest_j: "\<forall>x\<in>#?rest. ?f x \<noteq> ?f (arr ! j)"
  proof
    fix x assume "x \<in># ?rest"
    then have "x \<in># mset arr - {#arr ! j#}"
      unfolding split_j by (rule in_diffD)
    then show "?f x \<noteq> ?f (arr ! j)" by (rule unique_match [OF d j])
  qed
  have rest_i: "\<forall>x\<in>#?rest. ?f x \<noteq> ?f (arr ! i)"
  proof
    fix x assume "x \<in># ?rest"
    then have "x \<in># mset arr - {#arr ! i#}"
      unfolding split_i by (rule in_diffD)
    then show "?f x \<noteq> ?f (arr ! i)" by (rule unique_match [OF d i])
  qed
  have e1: "filter_mset (\<lambda>e. lc (name e) = lc (normalizeFn raw)) ?rest = {#}"
    unfolding filter_mset_eq_mempty_iff using rest_j tgt by metis
  have "mset (filter (\<lambda>e. lc (name e) = lc (normalizeFn raw)) ?res)
          = filter_mset (\<lambda>e. lc (name e) = lc (normalizeFn raw)) (add_mset ?m ?rest)"
    by (simp only: mset_filter ms)
  also have "\<dots> = {#?m#}"
    using tgt by (simp only: filter_mset_add_mset e1) simp
  finally have one: "filter (\<lambda>e. lc (name e) = lc (normalizeFn raw)) ?res = [?m]"
    by (simp only: mset_single_iff)
  have e2: "filter_mset (\<lambda>e. lc (name e) = lc oldName) ?rest = {#}"
    unfolding filter_mset_eq_mempty_iff using rest_i src by metis
  have "lc (name ?m) \<noteq> lc oldName"
    using differ src by simp
  then have "filter_mset (\<lambda>e. lc (name e) = lc oldName) (add_mset ?m ?rest) = {#}"
    by (simp only: filter_mset_add_mset e2) simp
  then have "mset (filter (\<lambda>e. lc (name e) = lc oldName) ?res) = {#}"
    by (simp only: mset_filter ms)
  then have none: "filter (\<lambda>e. lc (name e) = lc oldName) ?res = []"
    by (simp only: mset_zero_iff)
  from run ms one none show ?thesis by blast
qed

theorem rename_merges_into_existing_witness:
  "renameCity lower_ascii (\<lambda>_. 0) 200 (Some (str ''tijuana'')) (str ''tokyo'') normalizeCity
      (\<lambda>_. True) (setHistory tokyo_tijuana)
   = (setHistory [\<lparr> name = str ''Tijuana'', pinned = True, ts = 200 \<rparr>],
      [\<lparr> name = str ''Tijuana'', pinned = True, ts = 200 \<rparr>], None)"
proof -
  have n: "normalizeCity (str ''tijuana'') = str ''tijuana''"
    by (simp add: normalizeCity_def str_def trim_def is_space_def)
  have u: "unique_names lower_ascii tokyo_tijuana"
    by (simp add: unique_names_def tokyo_tijuana_def lower_ascii_def str_def)
  have i: "0 < length tokyo_tijuana" and j: "1 < length tokyo_tijuana"
    by (simp_all add: tokyo_tijuana_def)
  have src: "lower_ascii (name (tokyo_tijuana ! 0)) = lower_ascii (str ''tokyo'')"
    by (simp add: tokyo_tijuana_def lower_ascii_def str_def)
  have tgt: "lower_ascii (name (tokyo_tijuana ! 1)) = lower_ascii (normalizeCity (str ''tijuana''))"
    unfolding n by (simp add: tokyo_tijuana_def lower_ascii_def str_def)
  have v: "normalizeCity (str ''tijuana'') \<noteq> []" "length (normalizeCity (str ''tijuana'')) \<le> 80"
    unfolding n by (simp_all add: str_def)
  note merge = rename_merges_into_existing [where clk = "\<lambda>_. 0" and st = "setHistory tokyo_tijuana"
      and arr = tokyo_tijuana and lc = lower_ascii and i = 0 and j = 1 and oldName = "str ''tokyo''"
      and normalizeFn = normalizeCity and raw = "str ''tijuana''" and regex = "\<lambda>_. True"
      and now = 200]
  from merge [OF getHistory_tokyo_tijuana u i src j tgt _ v]
  obtain res where run: "renameCity lower_ascii (\<lambda>_. 0) 200 (Some (str ''tijuana'')) (str ''tokyo'')
         normalizeCity (\<lambda>_. True) (setHistory tokyo_tijuana) = (setHistory res, res, None)"
    and ms: "mset res = add_mset ((tokyo_tijuana ! 1)\<lparr> pinned := pinned (tokyo_tijuana ! 1)
                 \<or> pinned (tokyo_tijuana ! 0), ts := 200 \<rparr>)
               (mset tokyo_tijuana - {#tokyo_tijuana ! 0, tokyo_tijuana ! 1#})"
    by auto
  from ms have "mset res = {#\<lparr> name = str ''Tijuana'', pinned = True, ts = 200 \<rparr>#}"
    by (simp add: tokyo_tijuana_def)
  then have "res = [\<lparr> name = str ''Tijuana'', pinned = True, ts = 200 \<rparr>]"
    by (simp only: mset_single_iff)
  with run show ?thesis by simp
qed

text \<open>
  The claim as the specification words it fails on a list with case-insensitive
  duplicates. In \<^verbatim>\<open>[a (pinned), A]\<close> the entry \<^verbatim>\<open>a\<close> matches the old name and the other
  entry bears the new name \<^verbatim>\<open>A\<close>; the first entry that matches the new name is the
  source itself, so it is renamed in place and both entries stay, with their own pin
  flags.
\<close>

theorem rename_without_merge_counterexample:
  "getHistory (\<lambda>_. 0) (setHistory twins) = twins
   \<and> lower_ascii (name (twins ! 0)) = lower_ascii (str ''a'')
   \<and> name (twins ! 1) = normalizeCity (str ''A'')
   \<and> renameCity lower_ascii (\<lambda>_. 0) 9 (Some (str ''A'')) (str ''a'') normalizeCity (\<lambda>_. True)
        (setHistory twins)
     = (setHistory [\<lparr> name = str ''A'', pinned = True, ts = 9 \<rparr>,
                    \<lparr> name = str ''A'', pinned = False, ts = 1 \<rparr>],
        [\<lparr> name = str ''A'', pinned = True, ts = 9 \<rparr>,
         \<lparr> name = str ''A'', pinned = False, ts = 1 \<rparr>], None)"
  by (simp add: twins_def renameCity_def setHistory_def load_record_def normalizeCity_def
      str_def trim_def is_space_def is_cc_def lower_ascii_def cmp_def Let_def enumerate_eq_zip)

section \<open>The normalizer\<close>

lemma is_space_32: "is_space 32"
  by (simp add: is_space_def)

lemma not_space_44: "\<not> is_space 44"
  by (simp add: is_space_def)

lemma letter_not_space: "is_letter c \<Longrightarrow> \<not> is_space c"
  by (auto simp: is_letter_def is_space_def)

lemma upper_letter_letter: "is_letter c \<Longrightarrow> is_letter (upper_letter c)"
  by (auto simp: is_letter_def upper_letter_def)

lemma upper_letter_idem: "upper_letter (upper_letter c) = upper_letter c"
  by (auto simp: upper_letter_def)

lemma tidy_ends: "tidy s \<Longrightarrow> s \<noteq> [] \<Longrightarrow> \<not> is_space (hd s) \<and> \<not> is_space (last s)"
  by (induction s rule: tidy.induct) (auto split: if_splits)

lemma dropWhile_hd_id: "s = [] \<or> \<not> P (hd s) \<Longrightarrow> dropWhile P s = s"
  by (cases s) auto

lemma trim_tidy: "tidy s \<Longrightarrow> trim s = s"
proof (cases "s = []")
  case True
  then show ?thesis by (simp add: trim_def)
next
  case False
  assume "tidy s"
  with False have e: "\<not> is_space (hd s)" "\<not> is_space (last s)"
    using tidy_ends by blast+
  have "dropWhile is_space s = s"
    using e by (simp add: dropWhile_hd_id)
  moreover have "dropWhile is_space (rev s) = rev s"
    using e False by (simp add: dropWhile_hd_id hd_rev)
  ultimately show ?thesis by (simp add: trim_def)
qed

lemma tidy_hd: "tidy (y # ys) \<Longrightarrow> \<not> is_space y"
  by (cases ys) auto

lemma collapse_tidy: "tidy s \<Longrightarrow> collapse s = s"
  by (induction s rule: tidy.induct)
    (auto split: if_splits simp: is_space_32 neq_Nil_conv dest: tidy_hd)

lemma collapse_not_space: "\<not> is_space d \<Longrightarrow> collapse (d # cs) = d # collapse cs"
  by (cases cs) auto

lemma collapse_Nil_iff: "collapse s = [] \<longleftrightarrow> s = []"
  by (induction s rule: collapse.induct) auto

lemma tidy_collapse_aux:
  "s \<noteq> [] \<Longrightarrow> \<not> is_space (last s) \<Longrightarrow>
     (\<not> is_space (hd s) \<longrightarrow> tidy (collapse s))
   \<and> (is_space (hd s) \<longrightarrow> (\<exists>v. collapse s = 32 # v \<and> v \<noteq> [] \<and> tidy v))"
proof (induction s rule: collapse.induct)
  case 1
  then show ?case by simp
next
  case (2 c)
  then show ?case by simp
next
  case (3 c d cs)
  then have ih: "(\<not> is_space d \<longrightarrow> tidy (collapse (d # cs)))
      \<and> (is_space d \<longrightarrow> (\<exists>v. collapse (d # cs) = 32 # v \<and> v \<noteq> [] \<and> tidy v))"
    by (cases "is_space c"; cases "is_space d") auto
  show ?case
  proof (cases "is_space d")
    case True
    with ih obtain v where v: "collapse (d # cs) = 32 # v" "v \<noteq> []" "tidy v" by blast
    then show ?thesis using True by (auto simp: is_space_32)
  next
    case False
    with ih have t: "tidy (collapse (d # cs))" by simp
    have e: "collapse (d # cs) = d # collapse cs"
      using False by (rule collapse_not_space)
    show ?thesis using False t e by (auto simp: collapse_Nil_iff)
  qed
qed

lemma trim_ends: "trim s \<noteq> [] \<Longrightarrow> \<not> is_space (hd (trim s)) \<and> \<not> is_space (last (trim s))"
proof -
  assume ne: "trim s \<noteq> []"
  let ?u = "dropWhile is_space (rev (dropWhile is_space s))"
  have u: "?u \<noteq> []" using ne by (simp add: trim_def)
  then have h: "\<not> is_space (hd ?u)" by (rule hd_dropWhile)
  have l: "last (trim s) = hd ?u" using u by (simp add: trim_def last_rev)
  have d: "dropWhile is_space s \<noteq> []"
  proof
    assume "dropWhile is_space s = []"
    then have "?u = []" by (simp only: rev.simps dropWhile.simps)
    with u show False by contradiction
  qed
  then have hd: "\<not> is_space (hd (dropWhile is_space s))" by (rule hd_dropWhile)
  have "hd (trim s) = last ?u" using u by (simp add: trim_def hd_rev)
  also have "last ?u = last (rev (dropWhile is_space s))"
    using u by (metis dropWhile_eq_Nil_conv last_appendR takeWhile_dropWhile_id)
  also have "\<dots> = hd (dropWhile is_space s)" using d by (simp add: last_rev)
  finally show ?thesis using h l hd by simp
qed

lemma tidy_collapse_trim: "tidy (collapse (trim s))"
proof (cases "trim s = []")
  case True
  then show ?thesis by simp
next
  case False
  then show ?thesis using trim_ends [OF False] tidy_collapse_aux [of "trim s"] by blast
qed

lemma replace_cc_Nil_iff: "replace_cc s = [] \<longleftrightarrow> s = []"
  by (cases s) auto

lemma hd_replace_cc: "s \<noteq> [] \<Longrightarrow> hd (replace_cc s) = hd s"
  by (cases s) auto

lemma is_cc_two: "is_cc r \<Longrightarrow> \<exists>x y. r = [x, y] \<and> is_letter x \<and> is_letter y"
  by (cases r; cases "tl r") (auto simp: is_cc_def)

lemma tidy_replace_cc: "tidy s \<Longrightarrow> tidy (replace_cc s)"
proof (induction s rule: tidy.induct)
  case 1
  then show ?case by simp
next
  case (2 c)
  then show ?case by (simp add: is_cc_def)
next
  case (3 c d cs)
  from "3.prems" have c: "\<not> is_space c" by simp
  show ?case
  proof (cases "c = 44 \<and> is_cc (dropWhile is_space (d # cs))")
    case True
    then obtain x y where r: "dropWhile is_space (d # cs) = [x, y]" "is_letter x" "is_letter y"
      using is_cc_two by blast
    have t: "tidy [44, 32, upper_letter x, upper_letter y]"
      using r by (simp add: not_space_44 is_space_32 letter_not_space upper_letter_letter)
    have "replace_cc (c # d # cs) = [44, 32] @ map upper_letter (dropWhile is_space (d # cs))"
      using True by (simp del: dropWhile.simps)
    also have "\<dots> = [44, 32, upper_letter x, upper_letter y]"
      unfolding r by simp
    finally show ?thesis using t by (simp only:)
  next
    case False
    then have e: "replace_cc (c # d # cs) = c # replace_cc (d # cs)" by auto
    show ?thesis
    proof (cases "is_space d")
      case True
      with "3.prems" have d: "d = 32" "cs \<noteq> []" "tidy cs" by simp_all
      then have "tidy (replace_cc cs)" using "3.IH"(1) c True by simp
      moreover have "replace_cc (d # cs) = 32 # replace_cc cs" using d by simp
      ultimately show ?thesis using e c d by (simp add: is_space_32 replace_cc_Nil_iff)
    next
      case nd: False
      with "3.prems" have "tidy (d # cs)" by simp
      then have t: "tidy (replace_cc (d # cs))" using "3.IH"(2) c nd by simp
      obtain w where w: "replace_cc (d # cs) = d # w"
        using hd_replace_cc [of "d # cs"] replace_cc_Nil_iff [of "d # cs"]
        by (cases "replace_cc (d # cs)") auto
      show ?thesis using e c nd t w by simp
    qed
  qed
qed

lemma replace_cc_no_comma: "44 \<notin> set s \<Longrightarrow> replace_cc s = s"
  by (induction s) auto

lemma replace_cc_keeps_comma: "44 \<in> set s \<Longrightarrow> 44 \<in> set (replace_cc s)"
  by (induction s) auto

lemma comma_not_cc: "44 \<in> set s \<Longrightarrow> \<not> is_cc (dropWhile is_space s)"
proof
  assume a: "44 \<in> set s" and b: "is_cc (dropWhile is_space s)"
  have "44 \<in> set (dropWhile is_space s)"
    using a by (induction s) (auto simp: not_space_44)
  then have "is_letter 44" using b by (auto simp: is_cc_def list_all_iff)
  then show False by (simp add: is_letter_def)
qed

lemma is_cc_after_replace: "is_cc (dropWhile is_space (replace_cc s)) \<Longrightarrow> is_cc (dropWhile is_space s)"
  using comma_not_cc replace_cc_keeps_comma replace_cc_no_comma by (cases "44 \<in> set s") fastforce+

lemma replace_cc_idem: "replace_cc (replace_cc s) = replace_cc s"
proof (induction s)
  case Nil
  then show ?case by simp
next
  case (Cons c cs)
  show ?case
  proof (cases "c = 44 \<and> is_cc (dropWhile is_space cs)")
    case True
    then obtain x y where r: "dropWhile is_space cs = [x, y]" "is_letter x" "is_letter y"
      using is_cc_two by blast
    have "is_cc [upper_letter x, upper_letter y]"
      using r by (simp add: is_cc_def upper_letter_letter)
    moreover have "\<not> is_space (upper_letter x)"
      using r by (simp add: letter_not_space upper_letter_letter)
    ultimately show ?thesis
      using True r by (simp add: is_space_32 upper_letter_idem)
  next
    case False
    then have e: "replace_cc (c # cs) = c # replace_cc cs" by auto
    have "\<not> (c = 44 \<and> is_cc (dropWhile is_space (replace_cc cs)))"
      using False is_cc_after_replace by blast
    then show ?thesis using e Cons.IH by auto
  qed
qed

text \<open>
  C7. \<open>normalizeCity\<close> is a function of its argument alone, and applying it to its own
  output changes nothing.
\<close>

theorem normalizeCity_idempotent: "normalizeCity (normalizeCity s) = normalizeCity s"
proof -
  let ?t = "collapse (trim s)"
  have "tidy (replace_cc ?t)"
    by (rule tidy_replace_cc) (rule tidy_collapse_trim)
  then have "collapse (trim (replace_cc ?t)) = replace_cc ?t"
    by (simp add: trim_tidy collapse_tidy)
  then show ?thesis
    by (simp add: normalizeCity_def replace_cc_idem)
qed

theorem normalizeCity_idempotent_witness:
  "normalizeCity (str ''  san   jose ,cr '') = str ''san jose , CR''
   \<and> normalizeCity (normalizeCity (str ''  san   jose ,cr '')) = str ''san jose , CR''"
proof -
  have n: "normalizeCity (str ''  san   jose ,cr '') = str ''san jose , CR''"
    by (simp add: normalizeCity_def str_def trim_def is_space_def is_cc_def is_letter_def
        upper_letter_def)
  show ?thesis
    using normalizeCity_idempotent [of "str ''  san   jose ,cr ''"] n by simp
qed

section \<open>Capacity\<close>

lemma trim_idem: "trim (trim s) = trim s"
proof (cases "trim s = []")
  case True
  have "trim [] = []" by (simp add: trim_def)
  with True show ?thesis by simp
next
  case False
  from trim_ends [OF False] have e: "\<not> is_space (hd (trim s))" "\<not> is_space (last (trim s))"
    by simp_all
  have "dropWhile is_space (trim s) = trim s"
    using e by (simp add: dropWhile_hd_id)
  moreover have "dropWhile is_space (rev (trim s)) = rev (trim s)"
    using e False by (simp add: dropWhile_hd_id hd_rev)
  ultimately show ?thesis by (simp add: trim_def [of "trim s"])
qed

lemma reload:
  "getHistory clk (setHistory S)
     = filter (\<lambda>e. name e \<noteq> []) (map (\<lambda>e. e\<lparr> name := trim (name e) \<rparr>) S)"
proof -
  have "map (\<lambda>(i, r). load_record (clk i) r)
          (enumerate 0 (map (\<lambda>e. \<lparr> sname = Some (name e), spinned = Some (pinned e),
                                     sts = Some (ts e) \<rparr>) S))
        = map (\<lambda>e. e\<lparr> name := trim (name e) \<rparr>) S"
    by (rule nth_equalityI) (simp_all add: nth_enumerate_eq load_record_def)
  then show ?thesis by (simp add: setHistory_def)
qed

lemma reload_clean: "clean (getHistory clk (setHistory S))"
  by (auto simp: reload clean_def trim_idem)

lemma reload_id: "clean S \<Longrightarrow> getHistory clk (setHistory S) = S"
proof -
  assume c: "clean S"
  then have "map (\<lambda>e. e\<lparr> name := trim (name e) \<rparr>) S = S"
    by (induction S) (auto simp: clean_def)
  then show ?thesis using c by (simp add: reload clean_def filter_id_conv)
qed

lemma upsertCity_candidates:
  "upsertCity lc clk now nm st
     = (setHistory (take 8 (sort_by cmp (upsert_candidates lc now nm (getHistory clk st)))),
        take 8 (sort_by cmp (upsert_candidates lc now nm (getHistory clk st))))"
  by (simp add: upsertCity_def upsert_candidates_def Let_def)

lemma clean_candidates:
  "clean arr \<Longrightarrow> trim nm \<noteq> [] \<Longrightarrow> clean (upsert_candidates lc now nm arr)"
proof -
  assume c: "clean arr" and n: "trim nm \<noteq> []"
  show ?thesis
  proof (cases "findIndex (\<lambda>x. lc (name x) = lc (trim nm)) arr")
    case None
    then show ?thesis using c n by (simp add: upsert_candidates_def clean_def trim_idem)
  next
    case (Some i)
    have "set (arr[i := (arr ! i)\<lparr> name := trim nm, ts := now \<rparr>])
            \<subseteq> insert ((arr ! i)\<lparr> name := trim nm, ts := now \<rparr>) (set arr)"
      by (rule set_update_subset_insert)
    then show ?thesis using Some c n by (auto simp: upsert_candidates_def clean_def trim_idem)
  qed
qed

lemma length_candidates: "length arr \<le> length (upsert_candidates lc now nm arr)"
  by (simp add: upsert_candidates_def split: option.splits)

lemma length_candidates_le: "length (upsert_candidates lc now nm arr) \<le> Suc (length arr)"
  by (simp add: upsert_candidates_def split: option.splits)

lemma classes_candidates:
  "(\<lambda>e. lc (name e)) ` set (upsert_candidates lc now nm arr)
     = insert (lc (trim nm)) ((\<lambda>e. lc (name e)) ` set arr)"
proof (cases "findIndex (\<lambda>x. lc (name x) = lc (trim nm)) arr")
  case None
  then show ?thesis by (simp add: upsert_candidates_def)
next
  case (Some i)
  let ?f = "\<lambda>e. lc (name e)"
  let ?v = "(arr ! i)\<lparr> name := trim nm, ts := now \<rparr>"
  have i: "i < length arr" and m: "?f (arr ! i) = lc (trim nm)"
    using findIndex_Some_bound [OF Some] by simp_all
  have "map ?f (arr[i := ?v]) = (map ?f arr)[i := ?f (arr ! i)]"
    using m by (simp add: map_update)
  also have "\<dots> = map ?f arr"
    using i by (metis length_map list_update_id nth_map)
  finally have "set (map ?f (arr[i := ?v])) = set (map ?f arr)" by simp
  moreover have "lc (trim nm) \<in> ?f ` set arr"
    using i m by (metis imageI nth_mem)
  ultimately show ?thesis using Some by (auto simp: upsert_candidates_def)
qed

lemma clean_subset: "clean xs \<Longrightarrow> set ys \<subseteq> set xs \<Longrightarrow> clean ys"
  by (auto simp: clean_def)

lemma settled_step:
  assumes c: "clean (getHistory clk st)"
    and n: "trim nm \<noteq> []"
    and h: "length (getHistory clk st) < 8 \<longrightarrow> C \<subseteq> (\<lambda>e. lc (name e)) ` set (getHistory clk st)"
  shows "settled lc (insert (lc (trim nm)) C) (fst (upsertCity lc clk now nm st))"
proof -
  let ?arr = "getHistory clk st"
  let ?cand = "upsert_candidates lc now nm ?arr"
  let ?res = "take 8 (sort_by cmp ?cand)"
  have cc: "clean (sort_by cmp ?cand)"
    using clean_candidates [OF c n] by (simp add: clean_def set_sort_by)
  have cl: "clean ?res"
    by (rule clean_subset [OF cc]) (rule set_take_subset)
  have len: "length ?res \<le> 8" by simp
  have cls: "length ?res < 8 \<longrightarrow> insert (lc (trim nm)) C \<subseteq> (\<lambda>e. lc (name e)) ` set ?res"
  proof
    assume l: "length ?res < 8"
    then have lc8: "length ?cand < 8" by (simp add: length_sort_by)
    then have "length ?arr < 8" using length_candidates [of ?arr lc now nm] by simp
    with h have sub: "C \<subseteq> (\<lambda>e. lc (name e)) ` set ?arr" by simp
    have "?res = sort_by cmp ?cand" using lc8 by (simp add: length_sort_by)
    then have "set ?res = set ?cand" by (simp add: set_sort_by)
    then show "insert (lc (trim nm)) C \<subseteq> (\<lambda>e. lc (name e)) ` set ?res"
      using sub by (simp only: classes_candidates) auto
  qed
  have "fst (upsertCity lc clk now nm st) = setHistory ?res"
    by (simp add: upsertCity_candidates)
  with cl len cls show ?thesis unfolding settled_def by blast
qed

lemma settled_upsert:
  assumes s: "settled lc C st" and n: "trim nm \<noteq> []"
  shows "settled lc (insert (lc (trim nm)) C) (fst (upsertCity lc clk now nm st))"
proof -
  from s obtain S where S: "st = setHistory S" "clean S" "length S \<le> 8"
    "length S < 8 \<longrightarrow> C \<subseteq> (\<lambda>e. lc (name e)) ` set S"
    unfolding settled_def by blast
  have g: "getHistory clk st = S" using S by (simp add: reload_id)
  show ?thesis
    by (rule settled_step) (use g S n in simp_all)
qed

lemma settled_upsertMany:
  "settled lc C st \<Longrightarrow> \<forall>(clk, now, nm)\<in>set calls. trim nm \<noteq> [] \<Longrightarrow>
     settled lc (C \<union> (\<lambda>(clk, now, nm). lc (trim nm)) ` set calls) (upsertMany lc calls st)"
proof (induction calls arbitrary: C st)
  case Nil
  then show ?case by simp
next
  case (Cons c calls)
  obtain clk now nm where c: "c = (clk, now, nm)" by (cases c)
  have n: "trim nm \<noteq> []" using Cons.prems(2) c by simp
  have "settled lc (insert (lc (trim nm)) C) (fst (upsertCity lc clk now nm st))"
    using Cons.prems(1) n by (rule settled_upsert)
  moreover have "\<forall>(clk, now, nm)\<in>set calls. trim nm \<noteq> []"
    using Cons.prems(2) by simp
  ultimately have "settled lc (insert (lc (trim nm)) C \<union> (\<lambda>(clk, now, nm). lc (trim nm)) ` set calls)
      (upsertMany lc calls (fst (upsertCity lc clk now nm st)))"
    by (rule Cons.IH)
  then show ?case by (simp add: c)
qed

lemma settled_full:
  assumes s: "settled lc C st" and f: "finite C" and k: "8 \<le> card C"
  shows "\<exists>res. st = setHistory res \<and> length res = 8 \<and> (\<forall>clk. getHistory clk st = res)"
proof -
  from s obtain S where S: "st = setHistory S" "clean S" "length S \<le> 8"
    "length S < 8 \<longrightarrow> C \<subseteq> (\<lambda>e. lc (name e)) ` set S"
    unfolding settled_def by blast
  have "\<not> length S < 8"
  proof
    assume l: "length S < 8"
    with S have "C \<subseteq> (\<lambda>e. lc (name e)) ` set S" by simp
    then have "card C \<le> card ((\<lambda>e. lc (name e)) ` set S)"
      by (simp add: card_mono)
    also have "\<dots> \<le> card (set S)" by (simp add: card_image_le)
    also have "\<dots> \<le> length S" by (rule card_length)
    finally show False using k l by simp
  qed
  with S have "length S = 8" by simp
  moreover have "\<forall>clk. getHistory clk st = S" using S by (simp add: reload_id)
  ultimately show ?thesis using S by blast
qed

lemma take_drop_ranked:
  "ordered xs \<Longrightarrow> \<forall>r\<in>set (take n xs). \<forall>e\<in>set (drop n xs). ranks_before r e"
proof -
  assume "ordered xs"
  then have "sorted_wrt ranks_before (take n xs @ drop n xs)"
    by (simp add: ordered_def)
  then show ?thesis by (simp only: sorted_wrt_append) blast
qed

text \<open>
  C3, as the code has it. Every result of \<open>upsertCity\<close> has at most eight entries, and
  they are the highest ranked of the candidates: together with the entries that were
  dropped they make up the candidates, and each of them ranks before each dropped
  entry. After a sequence of calls whose names are not empty once trimmed and of which
  more than eight differ when trimmed and compared in lower case, the persisted list
  has exactly eight entries, whatever the persisted value was at the start.
\<close>

theorem capacity:
  "length (snd (upsertCity lc clk now nm st)) \<le> 8
   \<and> (\<exists>dropped.
          mset (snd (upsertCity lc clk now nm st)) + mset dropped
            = mset (upsert_candidates lc now nm (getHistory clk st))
        \<and> (\<forall>r\<in>set (snd (upsertCity lc clk now nm st)). \<forall>e\<in>set dropped. ranks_before r e))
   \<and> ((\<forall>(k, t, n)\<in>set calls. trim n \<noteq> [])
        \<and> 8 < card ((\<lambda>(k, t, n). lc (trim n)) ` set calls)
      \<longrightarrow> (\<exists>res. upsertMany lc calls st0 = setHistory res \<and> length res = 8
                \<and> (\<forall>k. getHistory k (upsertMany lc calls st0) = res)))"
proof -
  let ?sorted = "sort_by cmp (upsert_candidates lc now nm (getHistory clk st))"
  have res: "snd (upsertCity lc clk now nm st) = take 8 ?sorted"
    by (simp add: upsertCity_candidates)
  have a: "length (snd (upsertCity lc clk now nm st)) \<le> 8"
    by (simp add: res)
  have "mset (take 8 ?sorted) + mset (drop 8 ?sorted) = mset ?sorted"
    by (simp flip: mset_append)
  then have b1: "mset (snd (upsertCity lc clk now nm st)) + mset (drop 8 ?sorted)
            = mset (upsert_candidates lc now nm (getHistory clk st))"
    by (simp add: res mset_sort_by)
  have b2: "\<forall>r\<in>set (snd (upsertCity lc clk now nm st)). \<forall>e\<in>set (drop 8 ?sorted). ranks_before r e"
    unfolding res by (rule take_drop_ranked) (rule ordered_sort_by)
  have c: "(\<forall>(k, t, n)\<in>set calls. trim n \<noteq> [])
        \<and> 8 < card ((\<lambda>(k, t, n). lc (trim n)) ` set calls)
      \<longrightarrow> (\<exists>res. upsertMany lc calls st0 = setHistory res \<and> length res = 8
                \<and> (\<forall>k. getHistory k (upsertMany lc calls st0) = res))"
  proof
    let ?cl = "\<lambda>(k, t, n). lc (trim n)"
    assume h: "(\<forall>(k, t, n)\<in>set calls. trim n \<noteq> []) \<and> 8 < card (?cl ` set calls)"
    then have "calls \<noteq> []" by auto
    then obtain c1 rest where calls: "calls = c1 # rest" by (cases calls) auto
    obtain k1 t1 n1 where c1: "c1 = (k1, t1, n1)" by (cases c1)
    let ?st1 = "fst (upsertCity lc k1 t1 n1 st0)"
    have ne: "\<forall>(k, t, n)\<in>set rest. trim n \<noteq> []" using h calls by simp
    have "card (?cl ` set calls) \<le> Suc (card (?cl ` set rest))"
      unfolding calls by (simp add: card_insert_le_m1 card_insert_if)
    with h have big: "8 \<le> card (?cl ` set rest)" by simp
    then have "rest \<noteq> []" by auto
    then obtain c2 rest2 where rest: "rest = c2 # rest2" by (cases rest) auto
    obtain k2 t2 n2 where c2: "c2 = (k2, t2, n2)" by (cases c2)
    have st1: "?st1 = setHistory (snd (upsertCity lc k1 t1 n1 st0))"
      by (simp add: upsertCity_candidates)
    have "clean (getHistory k2 ?st1)"
      unfolding st1 by (rule reload_clean)
    moreover have "trim n2 \<noteq> []" using ne rest c2 by simp
    ultimately have "settled lc (insert (lc (trim n2)) {}) (fst (upsertCity lc k2 t2 n2 ?st1))"
      by (rule settled_step) simp
    moreover have "\<forall>(k, t, n)\<in>set rest2. trim n \<noteq> []" using ne rest by simp
    ultimately have "settled lc (insert (lc (trim n2)) {} \<union> ?cl ` set rest2)
        (upsertMany lc rest2 (fst (upsertCity lc k2 t2 n2 ?st1)))"
      by (rule settled_upsertMany)
    then have s: "settled lc (?cl ` set rest) (upsertMany lc calls st0)"
      by (simp add: calls c1 rest c2)
    show "\<exists>res. upsertMany lc calls st0 = setHistory res \<and> length res = 8
                \<and> (\<forall>k. getHistory k (upsertMany lc calls st0) = res)"
      using s _ big by (rule settled_full) simp
  qed
  from a b1 b2 c show ?thesis by blast
qed

theorem capacity_witness:
  "8 < card ((\<lambda>(k, t, n). lower_ascii (trim n)) ` set nine_calls)
   \<and> length (getHistory (\<lambda>_. 0) (upsertMany lower_ascii nine_calls (StringArray [str ''z'']))) = 8"
proof -
  have ne: "\<forall>(k, t, n)\<in>set nine_calls. trim n \<noteq> []"
    by (simp add: nine_calls_def str_def trim_def is_space_def)
  have big: "8 < card ((\<lambda>(k, t, n). lower_ascii (trim n)) ` set nine_calls)"
    by (simp add: nine_calls_def str_def trim_def is_space_def lower_ascii_def)
  from capacity [of lower_ascii "\<lambda>_. 0" 0 "[]" Missing nine_calls "StringArray [str ''z'']"] ne big
  obtain res where "length res = 8"
    "\<forall>k. getHistory k (upsertMany lower_ascii nine_calls (StringArray [str ''z''])) = res"
    by blast
  with big show ?thesis by simp
qed

text \<open>
  The claim as the specification words it fails. Nine searches with nine different
  normalized names that differ in case only leave five entries. And a search for a
  blank name takes a place when it is stored and loses it at the next load: ten
  searches with nine different names, one of them blank, leave seven entries.
\<close>

theorem capacity_counterexample:
  "distinct (map (\<lambda>(k, t, n). normalizeCity n) case_calls) \<and> length case_calls = 9
   \<and> map name (getHistory (\<lambda>_. 0) (upsertMany lower_ascii case_calls Missing))
       = [str ''e'', str ''D'', str ''C'', str ''B'', str ''A'']
   \<and> card ((\<lambda>(k, t, n). lower_ascii (normalizeCity n)) ` set blank_calls) = 9
   \<and> map name (getHistory (\<lambda>_. 0) (upsertMany lower_ascii blank_calls Missing))
       = [str ''b'', str ''h'', str ''g'', str ''f'', str ''e'', str ''d'', str ''c'']"
proof -
  have a: "distinct (map (\<lambda>(k, t, n). normalizeCity n) case_calls) \<and> length case_calls = 9"
    by (simp add: case_calls_def normalizeCity_def str_def trim_def is_space_def is_cc_def)
  have b: "map name (getHistory (\<lambda>_. 0) (upsertMany lower_ascii case_calls Missing))
       = [str ''e'', str ''D'', str ''C'', str ''B'', str ''A'']"
    by (simp add: case_calls_def upsertCity_def setHistory_def load_record_def
        str_def trim_def is_space_def lower_ascii_def cmp_def Let_def enumerate_eq_zip)
  have c: "card ((\<lambda>(k, t, n). lower_ascii (normalizeCity n)) ` set blank_calls) = 9"
    by (simp add: blank_calls_def normalizeCity_def str_def trim_def is_space_def is_cc_def
        lower_ascii_def card_insert_if)
  have d: "map name (getHistory (\<lambda>_. 0) (upsertMany lower_ascii blank_calls Missing))
       = [str ''b'', str ''h'', str ''g'', str ''f'', str ''e'', str ''d'', str ''c'']"
    by (simp add: blank_calls_def upsertCity_def setHistory_def load_record_def
        str_def trim_def is_space_def lower_ascii_def cmp_def Let_def enumerate_eq_zip)
  from a b c d show ?thesis by simp
qed

section \<open>Uniqueness of names\<close>

text \<open>
  C2. The legacy branch of the loader takes the stored strings as they are, while the
  object branch trims each name. The legacy value \<^verbatim>\<open>["a ", "a"]\<close> loads as two entries
  whose names differ, also in lower case. \<open>upsertCity\<close> of \<^verbatim>\<open>"b"\<close> returns three entries
  with different names and persists them as objects; the next operation, a \<open>deleteCity\<close>
  of a name that is not there, loads them trimmed and returns two entries named
  \<^verbatim>\<open>"a"\<close>.
\<close>

theorem legacy_names_collide_after_reload:
  "unique_names lower_ascii (getHistory (\<lambda>_. 100) legacy_spaced)
   \<and> unique_names lower_ascii (snd (step lower_ascii (\<lambda>_. True) (\<lambda>_. 100) 200 (Upsert (str ''b''))
         legacy_spaced))
   \<and> map name (snd (step lower_ascii (\<lambda>_. True) (\<lambda>_. 300) 400 (Delete (str ''x''))
         (fst (step lower_ascii (\<lambda>_. True) (\<lambda>_. 100) 200 (Upsert (str ''b'')) legacy_spaced))))
       = [str ''b'', str ''a'', str ''a'']
   \<and> \<not> unique_names lower_ascii
         (getHistory (\<lambda>_. 500)
            (run lower_ascii (\<lambda>_. True)
               [(\<lambda>_. 100, 200, Upsert (str ''b'')), (\<lambda>_. 300, 400, Delete (str ''x''))]
               legacy_spaced))"
  by (simp add: legacy_spaced_def unique_names_def upsertCity_def deleteCity_def setHistory_def
      load_record_def str_def trim_def is_space_def lower_ascii_def cmp_def Let_def
      enumerate_eq_zip)

section \<open>Uniqueness is kept when the loaded names are trimmed\<close>

lemma unique_names_mset:
  "mset xs = mset ys \<Longrightarrow> unique_names lc xs = unique_names lc ys"
proof -
  assume "mset xs = mset ys"
  then have "mset (map (\<lambda>e. lc (name e)) xs) = mset (map (\<lambda>e. lc (name e)) ys)"
    by (metis mset_map)
  then show ?thesis unfolding unique_names_def by (rule mset_eq_imp_distinct_iff)
qed

lemma unique_sort_by: "unique_names lc (sort_by f xs) = unique_names lc xs"
  by (rule unique_names_mset) (rule mset_sort_by)

lemma unique_take: "unique_names lc xs \<Longrightarrow> unique_names lc (take n xs)"
  by (simp add: unique_names_def take_map [symmetric])

lemma unique_filter: "unique_names lc xs \<Longrightarrow> unique_names lc (filter p xs)"
  by (simp add: unique_names_def distinct_map_filter)

lemma unique_splice1: "unique_names lc xs \<Longrightarrow> unique_names lc (splice1 i xs)"
proof -
  let ?ys = "map (\<lambda>e. lc (name e)) xs"
  assume "unique_names lc xs"
  then have d: "distinct ?ys" by (simp add: unique_names_def)
  then have "set (take i ?ys) \<inter> set (drop (Suc i) ?ys) = {}"
    by (rule set_take_disj_set_drop_if_distinct) simp
  with d have "distinct (take i ?ys @ drop (Suc i) ?ys)"
    by (simp only: distinct_append distinct_take distinct_drop simp_thms)
  then show ?thesis
    by (simp add: unique_names_def splice1_def take_map drop_map)
qed

lemma unique_update_same:
  "unique_names lc xs \<Longrightarrow> i < length xs \<Longrightarrow> lc (name v) = lc (name (xs ! i)) \<Longrightarrow>
     unique_names lc (xs[i := v])"
proof -
  assume u: "unique_names lc xs" and i: "i < length xs" and v: "lc (name v) = lc (name (xs ! i))"
  have "map (\<lambda>e. lc (name e)) (xs[i := v]) = (map (\<lambda>e. lc (name e)) xs)[i := lc (name (xs ! i))]"
    using v by (simp add: map_update)
  also have "\<dots> = map (\<lambda>e. lc (name e)) xs"
    using i by (metis length_map list_update_id nth_map)
  finally show ?thesis using u by (simp add: unique_names_def)
qed

lemma distinct_update_fresh:
  "distinct ys \<Longrightarrow> i < length ys \<Longrightarrow> \<forall>k<length ys. k \<noteq> i \<longrightarrow> ys ! k \<noteq> x \<Longrightarrow>
     distinct (ys[i := x])"
  unfolding distinct_conv_nth by (auto simp: nth_list_update)

lemma unique_update_fresh:
  assumes u: "unique_names lc xs" and i: "i < length xs"
    and f: "\<forall>k<length xs. k \<noteq> i \<longrightarrow> lc (name (xs ! k)) \<noteq> lc (name v)"
  shows "unique_names lc (xs[i := v])"
proof -
  have "distinct ((map (\<lambda>e. lc (name e)) xs)[i := lc (name v)])"
    by (rule distinct_update_fresh) (use u i f in \<open>simp_all add: unique_names_def\<close>)
  then show ?thesis by (simp add: unique_names_def map_update)
qed

lemma trimmed_subset: "trimmed xs \<Longrightarrow> set ys \<subseteq> set xs \<Longrightarrow> trimmed ys"
  by (auto simp: trimmed_def)

lemma trimmed_update: "trimmed xs \<Longrightarrow> trim (name v) = name v \<Longrightarrow> trimmed (xs[i := v])"
  using set_update_subset_insert [of xs i v] by (auto simp: trimmed_def)

lemma trimmed_sort_by: "trimmed (sort_by f xs) = trimmed xs"
  by (simp add: trimmed_def set_sort_by)

lemma trim_normalizeCity: "trim (normalizeCity s) = normalizeCity s"
  unfolding normalizeCity_def Let_def
  by (rule trim_tidy) (rule tidy_replace_cc, rule tidy_collapse_trim)

lemma reload_trimmed:
  "trimmed S \<Longrightarrow> getHistory clk (setHistory S) = filter (\<lambda>e. name e \<noteq> []) S"
proof -
  assume "trimmed S"
  then have "map (\<lambda>e. e\<lparr> name := trim (name e) \<rparr>) S = S"
    by (induction S) (auto simp: trimmed_def)
  then show ?thesis by (simp add: reload)
qed

lemma sound_setHistory:
  "trimmed S \<Longrightarrow> unique_names lc S \<Longrightarrow> sound lc (setHistory S)"
  unfolding sound_def
  by (auto simp: reload_trimmed unique_filter intro: trimmed_subset)

lemma upsert_keeps:
  assumes t: "trimmed arr" and u: "unique_names lc arr"
  shows "trimmed (upsert_candidates lc now nm arr) \<and> unique_names lc (upsert_candidates lc now nm arr)"
proof (cases "findIndex (\<lambda>x. lc (name x) = lc (trim nm)) arr")
  case None
  then have "lc (trim nm) \<notin> (\<lambda>e. lc (name e)) ` set arr"
    by (auto simp: findIndex_None_iff)
  then show ?thesis
    using None t u by (simp add: upsert_candidates_def trimmed_def unique_names_def trim_idem)
next
  case (Some i)
  have i: "i < length arr" and m: "lc (name (arr ! i)) = lc (trim nm)"
    using findIndex_Some_bound [OF Some] by simp_all
  let ?v = "(arr ! i)\<lparr> name := trim nm, ts := now \<rparr>"
  have "trimmed (arr[i := ?v])"
    using t by (rule trimmed_update) (simp add: trim_idem)
  moreover have "unique_names lc (arr[i := ?v])"
    using u i by (rule unique_update_same) (simp add: m)
  ultimately show ?thesis using Some by (simp add: upsert_candidates_def)
qed

lemma rename_keeps:
  assumes arr: "getHistory clk st0 = arr" and t: "trimmed arr" and u: "unique_names lc arr"
  shows "trimmed (fst (snd (renameCity lc clk now answer oldName normalizeCity regex st0)))
       \<and> unique_names lc (fst (snd (renameCity lc clk now answer oldName normalizeCity regex st0)))"
proof -
  let ?r = "renameCity lc clk now answer oldName normalizeCity regex st0"
  let ?f = "\<lambda>e. lc (name e)"
  have d: "distinct (map ?f arr)" using u by (simp add: unique_names_def)
  consider (same) "fst (snd ?r) = arr"
    | (merge) i j where "i < length arr" "j < length arr"
        "fst (snd ?r) = sort_by cmp (splice1 i (arr[j := (arr ! j)
            \<lparr> pinned := pinned (arr ! j) \<or> pinned (arr ! i), ts := now \<rparr>]))"
    | (inplace) i raw where "i < length arr"
        "\<forall>k<length arr. k \<noteq> i \<longrightarrow> ?f (arr ! k) \<noteq> lc (normalizeCity raw)"
        "fst (snd ?r) = sort_by cmp (arr[i := (arr ! i)\<lparr> name := normalizeCity raw, ts := now \<rparr>])"
  proof (cases "findIndex (\<lambda>x. lc (name x) = lc oldName) arr")
    case None
    then have "fst (snd ?r) = arr" by (simp add: renameCity_def arr)
    then show ?thesis by (rule same)
  next
    case (Some i)
    have i: "i < length arr" using findIndex_Some_bound [OF Some] by simp
    show ?thesis
    proof (cases answer)
      case None
      then have "fst (snd ?r) = arr" using Some by (simp add: renameCity_def arr)
      then show ?thesis by (rule same)
    next
      case (Some raw)
      let ?nn = "normalizeCity raw"
      show ?thesis
      proof (cases "?nn = [] \<or> 80 < length ?nn \<or> \<not> regex ?nn")
        case True
        then have "fst (snd ?r) = arr"
          using Some \<open>findIndex _ arr = Some i\<close> by (auto simp: renameCity_def arr Let_def)
        then show ?thesis by (rule same)
      next
        case valid: False
        show ?thesis
        proof (cases "findIndex (\<lambda>x. lc (name x) = lc ?nn) arr")
          case None
          then have fresh: "\<forall>k<length arr. k \<noteq> i \<longrightarrow> ?f (arr ! k) \<noteq> lc ?nn"
            by (auto simp: findIndex_None_iff)
          have "fst (snd ?r) = sort_by cmp (arr[i := (arr ! i)\<lparr> name := ?nn, ts := now \<rparr>])"
            using valid None Some \<open>findIndex _ arr = Some i\<close>
            by (simp add: renameCity_def arr Let_def)
          with i fresh show ?thesis by (rule inplace)
        next
          case (Some j)
          have j: "j < length arr" and mj: "?f (arr ! j) = lc ?nn"
            using findIndex_Some_bound [OF Some] by simp_all
          show ?thesis
          proof (cases "j = i")
            case True
            have fresh: "\<forall>k<length arr. k \<noteq> i \<longrightarrow> ?f (arr ! k) \<noteq> lc ?nn"
            proof (intro allI impI)
              fix k assume k: "k < length arr" "k \<noteq> i"
              have "map ?f arr ! k \<noteq> map ?f arr ! i"
                using nth_eq_iff_index_eq [OF d, of k i] k i by simp
              then show "?f (arr ! k) \<noteq> lc ?nn" using k i mj True by simp
            qed
            have "fst (snd ?r) = sort_by cmp (arr[i := (arr ! i)\<lparr> name := ?nn, ts := now \<rparr>])"
              using valid Some True \<open>answer = Some raw\<close> \<open>findIndex _ arr = Some i\<close>
              by (simp add: renameCity_def arr Let_def)
            with i fresh show ?thesis by (rule inplace)
          next
            case False
            have "fst (snd ?r) = sort_by cmp (splice1 i (arr[j := (arr ! j)
                \<lparr> pinned := pinned (arr ! j) \<or> pinned (arr ! i), ts := now \<rparr>]))"
              using valid Some False \<open>answer = Some raw\<close> \<open>findIndex _ arr = Some i\<close>
              by (simp add: renameCity_def arr Let_def)
            with i j show ?thesis by (rule merge)
          qed
        qed
      qed
    qed
  qed
  then show ?thesis
  proof cases
    case same
    then show ?thesis using t u by simp
  next
    case (merge i j)
    let ?m = "(arr ! j)\<lparr> pinned := pinned (arr ! j) \<or> pinned (arr ! i), ts := now \<rparr>"
    have "trimmed (arr[j := ?m])"
      using t by (rule trimmed_update) (use t merge(2) in \<open>simp add: trimmed_def\<close>)
    then have "trimmed (splice1 i (arr[j := ?m]))"
      by (rule trimmed_subset) (auto simp: splice1_def dest: in_set_takeD in_set_dropD)
    moreover have "unique_names lc (arr[j := ?m])"
      using u merge(2) by (rule unique_update_same) simp
    then have "unique_names lc (splice1 i (arr[j := ?m]))"
      by (rule unique_splice1)
    ultimately show ?thesis
      using merge(3) by (simp add: trimmed_sort_by unique_sort_by)
  next
    case (inplace i raw)
    let ?v = "(arr ! i)\<lparr> name := normalizeCity raw, ts := now \<rparr>"
    have "trimmed (arr[i := ?v])"
      using t by (rule trimmed_update) (simp add: trim_normalizeCity)
    moreover have "unique_names lc (arr[i := ?v])"
      using u inplace(1) by (rule unique_update_fresh) (use inplace(2) in simp)
    ultimately show ?thesis
      using inplace(3) by (simp add: trimmed_sort_by unique_sort_by)
  qed
qed

lemma rename_persists:
  "fst (renameCity lc clk now answer oldName normalizeFn regex st) = st
   \<or> fst (renameCity lc clk now answer oldName normalizeFn regex st)
       = setHistory (fst (snd (renameCity lc clk now answer oldName normalizeFn regex st)))"
  by (simp add: renameCity_def Let_def split: option.splits)

lemma step_keeps:
  assumes s: "sound lc st"
  shows "trimmed (snd (step lc regex clk now c st)) \<and> unique_names lc (snd (step lc regex clk now c st))
       \<and> sound lc (fst (step lc regex clk now c st))"
proof -
  let ?arr = "getHistory clk st"
  from s have t: "trimmed ?arr" and u: "unique_names lc ?arr"
    by (simp_all add: sound_def)
  show ?thesis
  proof (cases c)
    case (Upsert nm)
    let ?res = "take 8 (sort_by cmp (upsert_candidates lc now nm ?arr))"
    from upsert_keeps [OF t u, of now nm]
    have ts: "trimmed (sort_by cmp (upsert_candidates lc now nm ?arr))"
      and us: "unique_names lc (sort_by cmp (upsert_candidates lc now nm ?arr))"
      by (simp_all add: trimmed_sort_by unique_sort_by)
    have "trimmed ?res"
      using ts by (rule trimmed_subset) (rule set_take_subset)
    moreover have "unique_names lc ?res"
      using us by (rule unique_take)
    ultimately have "trimmed ?res" and "unique_names lc ?res"
      by simp_all
    then show ?thesis
      using Upsert by (simp add: upsertCity_candidates sound_setHistory)
  next
    case (Delete nm)
    let ?res = "filter (\<lambda>x. lc (name x) \<noteq> lc nm) ?arr"
    have "trimmed ?res" using t by (rule trimmed_subset) simp
    moreover have "unique_names lc ?res" using u by (rule unique_filter)
    ultimately show ?thesis
      using Delete by (simp add: deleteCity_def Let_def sound_setHistory)
  next
    case Clear
    have "trimmed []" and "unique_names lc []"
      by (simp_all add: trimmed_def unique_names_def)
    then show ?thesis
      using Clear by (simp add: clearHistoryAll_def sound_setHistory)
  next
    case (TogglePin nm)
    show ?thesis
    proof (cases "findIndex (\<lambda>x. lc (name x) = lc nm) ?arr")
      case None
      then show ?thesis using TogglePin s t u by (simp add: togglePin_def)
    next
      case (Some i)
      have i: "i < length ?arr" using findIndex_Some_bound [OF Some] by simp
      let ?v = "(?arr ! i)\<lparr> pinned := \<not> pinned (?arr ! i), ts := now \<rparr>"
      have "trimmed (?arr[i := ?v])"
        using t by (rule trimmed_update) (use t i in \<open>simp add: trimmed_def\<close>)
      moreover have "unique_names lc (?arr[i := ?v])"
        using u i by (rule unique_update_same) simp
      ultimately show ?thesis
        using TogglePin Some
        by (simp add: togglePin_def Let_def trimmed_sort_by unique_sort_by sound_setHistory)
    qed
  next
    case (Rename oldName answer)
    let ?r = "renameCity lc clk now answer oldName normalizeCity regex st"
    have k: "trimmed (fst (snd ?r)) \<and> unique_names lc (fst (snd ?r))"
      using refl t u by (rule rename_keeps)
    have "fst ?r = st \<or> fst ?r = setHistory (fst (snd ?r))"
      by (rule rename_persists)
    then have "sound lc (fst ?r)"
      using s k by (auto simp: sound_setHistory)
    then show ?thesis
      using Rename k by (simp add: split_beta)
  qed
qed

lemma run_keeps: "sound lc st \<Longrightarrow> sound lc (run lc regex calls st)"
proof (induction calls arbitrary: st)
  case Nil
  then show ?case by simp
next
  case (Cons c calls)
  obtain clk now op where c: "c = (clk, now, op)" by (cases c)
  have "sound lc (fst (step lc regex clk now op st))"
    using step_keeps [OF Cons.prems] by simp
  then have "sound lc (run lc regex calls (fst (step lc regex clk now op st)))"
    by (rule Cons.IH)
  then show ?case by (simp add: c)
qed

text \<open>
  When the persisted value loads as trimmed names without case-insensitive duplicates,
  every operation returns a list without such duplicates, and after any sequence of
  operations the persisted value still loads that way.
\<close>

theorem uniqueness_kept:
  assumes "sound lc st"
  shows "unique_names lc (snd (step lc regex clk now c st))
       \<and> sound lc (run lc regex calls st)
       \<and> unique_names lc (getHistory clk' (run lc regex calls st))"
proof -
  have "sound lc (run lc regex calls st)"
    using assms by (rule run_keeps)
  then show ?thesis
    using step_keeps [OF assms, of regex clk now c] by (simp add: sound_def)
qed

theorem uniqueness_kept_witness:
  "sound lower_ascii (setHistory tokyo_tijuana)
   \<and> unique_names lower_ascii
       (getHistory (\<lambda>_. 0)
          (run lower_ascii (\<lambda>_. True)
             [(\<lambda>_. 0, 200, Upsert (str ''tokyo '')),
              (\<lambda>_. 0, 300, Rename (str ''Tijuana'') (Some (str ''TOKYO '')))]
             (setHistory tokyo_tijuana)))"
proof -
  have s: "sound lower_ascii (setHistory tokyo_tijuana)"
    by (rule sound_setHistory)
      (simp_all add: trimmed_def unique_names_def tokyo_tijuana_def lower_ascii_def str_def
        trim_def is_space_def)
  from uniqueness_kept [OF s] s show ?thesis by blast
qed

section \<open>What upsert stores\<close>

text \<open>
  C6, as the code has it. \<open>upsertCity\<close> only trims its argument. The call does what
  the call with the trimmed argument does. It looks the trimmed argument up in lower
  case; when an entry matches, the first such entry gets the trimmed argument as its
  name and \<open>now\<close> as its timestamp, otherwise a new unpinned entry with that name and
  timestamp is put in front. These candidates are sorted and cut to eight, and the
  result is returned and persisted as it is. So every entry of the result is an entry
  of the loaded list or carries the trimmed argument as its name, and such an entry is
  in the result whenever there are at most eight candidates. Runs of white space
  inside the name and the case of a country code are left as they were given.
\<close>

theorem upsert_stores_trimmed_name:
  assumes arr: "getHistory clk st = arr"
  shows "upsertCity lc clk now nm st = upsertCity lc clk now (trim nm) st
   \<and> upsertCity lc clk now nm st
       = (setHistory (take 8 (sort_by cmp (upsert_candidates lc now nm arr))),
          take 8 (sort_by cmp (upsert_candidates lc now nm arr)))
   \<and> (findIndex (\<lambda>x. lc (name x) = lc (trim nm)) arr = None \<longrightarrow>
        upsert_candidates lc now nm arr = \<lparr> name = trim nm, pinned = False, ts = now \<rparr> # arr)
   \<and> (\<forall>i. findIndex (\<lambda>x. lc (name x) = lc (trim nm)) arr = Some i \<longrightarrow>
        i < length arr
        \<and> upsert_candidates lc now nm arr = arr[i := (arr ! i)\<lparr> name := trim nm, ts := now \<rparr>])
   \<and> (\<exists>e\<in>set (upsert_candidates lc now nm arr). name e = trim nm \<and> ts e = now)
   \<and> (\<forall>e\<in>set (snd (upsertCity lc clk now nm st)).
        e \<in> set arr \<or> (name e = trim nm \<and> ts e = now))
   \<and> (length (upsert_candidates lc now nm arr) \<le> 8 \<longrightarrow>
        (\<exists>e\<in>set (snd (upsertCity lc clk now nm st)). name e = trim nm \<and> ts e = now))"
proof -
  let ?p = "\<lambda>x. lc (name x) = lc (trim nm)"
  let ?cands = "upsert_candidates lc now nm arr"
  let ?res = "take 8 (sort_by cmp ?cands)"
  have same: "upsertCity lc clk now nm st = upsertCity lc clk now (trim nm) st"
    by (simp add: upsertCity_def trim_idem)
  have run: "upsertCity lc clk now nm st = (setHistory ?res, ?res)"
    using upsertCity_candidates [of lc clk now nm st] by (simp add: arr)
  have new: "findIndex ?p arr = None \<longrightarrow>
      ?cands = \<lparr> name = trim nm, pinned = False, ts = now \<rparr> # arr"
    by (simp add: upsert_candidates_def)
  have upd: "\<forall>i. findIndex ?p arr = Some i \<longrightarrow>
      i < length arr \<and> ?cands = arr[i := (arr ! i)\<lparr> name := trim nm, ts := now \<rparr>]"
    by (auto simp: upsert_candidates_def dest: findIndex_Some_bound)
  have among: "\<exists>e\<in>set ?cands. name e = trim nm \<and> ts e = now"
  proof (cases "findIndex ?p arr")
    case None
    with new have "\<lparr> name = trim nm, pinned = False, ts = now \<rparr> \<in> set ?cands" by simp
    then show ?thesis by (rule bexI [rotated]) simp
  next
    case (Some i)
    with upd have "(arr ! i)\<lparr> name := trim nm, ts := now \<rparr> \<in> set ?cands"
      by (simp add: set_update_memI)
    then show ?thesis by (rule bexI [rotated]) simp
  qed
  have from_cands: "\<forall>e\<in>set ?cands. e \<in> set arr \<or> (name e = trim nm \<and> ts e = now)"
  proof (cases "findIndex ?p arr")
    case None
    with new show ?thesis by auto
  next
    case (Some i)
    have "set (arr[i := (arr ! i)\<lparr> name := trim nm, ts := now \<rparr>])
        \<subseteq> insert ((arr ! i)\<lparr> name := trim nm, ts := now \<rparr>) (set arr)"
      by (rule set_update_subset_insert)
    with Some upd show ?thesis by auto
  qed
  have "set ?res \<subseteq> set ?cands"
    using set_take_subset [of 8 "sort_by cmp ?cands"] by (simp add: set_sort_by)
  with from_cands have kept: "\<forall>e\<in>set (snd (upsertCity lc clk now nm st)).
        e \<in> set arr \<or> (name e = trim nm \<and> ts e = now)"
    unfolding run by auto
  have fits: "length ?cands \<le> 8 \<longrightarrow>
        (\<exists>e\<in>set (snd (upsertCity lc clk now nm st)). name e = trim nm \<and> ts e = now)"
  proof
    assume "length ?cands \<le> 8"
    then have "?res = sort_by cmp ?cands" by (simp add: length_sort_by)
    then have "set (snd (upsertCity lc clk now nm st)) = set ?cands"
      unfolding run by (simp add: set_sort_by)
    with among show "\<exists>e\<in>set (snd (upsertCity lc clk now nm st)). name e = trim nm \<and> ts e = now"
      by simp
  qed
  from same run new upd among kept fits show ?thesis by blast
qed

theorem upsert_stores_trimmed_name_witness:
  "upsertCity lower_ascii (\<lambda>_. 0) 200 (str '' New   York,us '') (setHistory tokyo_tijuana)
     = (setHistory [\<lparr> name = str ''Tokyo'', pinned = True, ts = 50 \<rparr>,
                    \<lparr> name = str ''New   York,us'', pinned = False, ts = 200 \<rparr>,
                    \<lparr> name = str ''Tijuana'', pinned = False, ts = 100 \<rparr>],
        [\<lparr> name = str ''Tokyo'', pinned = True, ts = 50 \<rparr>,
         \<lparr> name = str ''New   York,us'', pinned = False, ts = 200 \<rparr>,
         \<lparr> name = str ''Tijuana'', pinned = False, ts = 100 \<rparr>])
   \<and> map name (snd (upsertCity lower_ascii (\<lambda>_. 0) 100 (str '' a '') (setHistory pins8)))
     = [str ''a'', str ''H'', str ''G'', str ''F'', str ''E'', str ''D'', str ''C'', str ''B'']"
proof -
  have c1: "take 8 (sort_by cmp (upsert_candidates lower_ascii 200 (str '' New   York,us '')
                tokyo_tijuana))
      = [\<lparr> name = str ''Tokyo'', pinned = True, ts = 50 \<rparr>,
         \<lparr> name = str ''New   York,us'', pinned = False, ts = 200 \<rparr>,
         \<lparr> name = str ''Tijuana'', pinned = False, ts = 100 \<rparr>]"
    by (simp add: upsert_candidates_def tokyo_tijuana_def lower_ascii_def str_def trim_def
        is_space_def cmp_def)
  have c2: "map name (take 8 (sort_by cmp (upsert_candidates lower_ascii 100 (str '' a '') pins8)))
      = [str ''a'', str ''H'', str ''G'', str ''F'', str ''E'', str ''D'', str ''C'', str ''B'']"
    by (simp add: upsert_candidates_def pins8_def lower_ascii_def str_def trim_def
        is_space_def cmp_def)
  from upsert_stores_trimmed_name [OF getHistory_tokyo_tijuana, of lower_ascii 200
      "str '' New   York,us ''"]
  have r1: "upsertCity lower_ascii (\<lambda>_. 0) 200 (str '' New   York,us '') (setHistory tokyo_tijuana)
     = (setHistory (take 8 (sort_by cmp (upsert_candidates lower_ascii 200
                      (str '' New   York,us '') tokyo_tijuana))),
        take 8 (sort_by cmp (upsert_candidates lower_ascii 200 (str '' New   York,us '')
                      tokyo_tijuana)))"
    by blast
  from upsert_stores_trimmed_name [OF getHistory_pins8, of lower_ascii 100 "str '' a ''"]
  have "upsertCity lower_ascii (\<lambda>_. 0) 100 (str '' a '') (setHistory pins8)
     = (setHistory (take 8 (sort_by cmp (upsert_candidates lower_ascii 100 (str '' a '') pins8))),
        take 8 (sort_by cmp (upsert_candidates lower_ascii 100 (str '' a '') pins8)))"
    by blast
  then have r2: "snd (upsertCity lower_ascii (\<lambda>_. 0) 100 (str '' a '') (setHistory pins8))
     = take 8 (sort_by cmp (upsert_candidates lower_ascii 100 (str '' a '') pins8))"
    by (simp only: snd_conv)
  show ?thesis
    unfolding r1 r2 c1 c2 by simp
qed

text \<open>
  The claim as the specification words it fails: the name stored for
  \<^verbatim>\<open>" New   York,us "\<close> keeps its three inner spaces and its lower-case country code,
  while \<open>normalizeCity\<close> gives \<^verbatim>\<open>"New York, US"\<close>.
\<close>

theorem upsert_not_normalized_counterexample:
  "map name (snd (upsertCity lower_ascii (\<lambda>_. 0) 5 (str '' New   York,us '') Missing))
      = [str ''New   York,us'']
   \<and> normalizeCity (str '' New   York,us '') = str ''New York, US''
   \<and> map name (snd (upsertCity lower_ascii (\<lambda>_. 0) 5 (str '' New   York,us '') Missing))
      \<noteq> [normalizeCity (str '' New   York,us '')]"
  by (simp add: upsertCity_def normalizeCity_def str_def trim_def is_space_def is_cc_def
      is_letter_def upper_letter_def cmp_def Let_def)

section \<open>Loading what was saved\<close>

text \<open>
  What \<open>setHistory\<close> writes is loaded back with every name trimmed and the entries
  with an empty name left out; pin flags, timestamps and the order are kept. A list of
  trimmed, non-empty names is loaded back as it was saved.
\<close>

theorem load_after_save:
  "getHistory clk (setHistory S)
     = filter (\<lambda>e. name e \<noteq> []) (map (\<lambda>e. e\<lparr> name := trim (name e) \<rparr>) S)
   \<and> (clean S \<longrightarrow> getHistory clk (setHistory S) = S)"
  using reload [of clk S] reload_id [of S clk] by simp

theorem load_after_save_witness:
  "clean tokyo_tijuana
   \<and> getHistory (\<lambda>_. 7) (setHistory tokyo_tijuana) = tokyo_tijuana"
proof -
  have c: "clean tokyo_tijuana"
    by (simp add: clean_def tokyo_tijuana_def str_def trim_def is_space_def)
  with load_after_save [of "\<lambda>_. 7" tokyo_tijuana] show ?thesis by blast
qed

end
